theory Spec2Isabelle
  imports Complex_Main "HOL-Library.AList" "HOL-Library.List_Lexorder" "HOL-Library.Char_ord"
begin

section \<open>The N-step transition adder (mava/adders/reverb/transition.py)\<close>

text \<open>
  Python exceptions are values. \<open>StructureError\<close> stands for the error that
  \<open>tree_utils.broadcast_structures\<close> raises when two nested arguments differ in structure;
  \<open>ValidationError\<close> carries the keys of \<open>transition.action\<close>, as the source passes them.
\<close>

type_synonym agent = string
type_synonym net_key = string
type_synonym table = string

datatype error = IndexError | KeyError | TypeError | StructureError | ValidationError "agent list"

subsection \<open>The adder's own state\<close>

text \<open>
  The fields that \<open>__init__\<close> sets, and \<open>episode_steps\<close>, the counter of the trajectory
  writer that \<open>add\<close> and \<open>_write\<close> read (steps completed since the last reset).
  \<open>self_discount\<close> is \<open>self._discount\<close>, a scalar (as \<open>signature\<close> assumes).
\<close>

record adder =
  n_step :: int
  self_discount :: real
  first_idx :: int
  last_idx :: int
  table_net_config :: "(table \<times> net_key list) list option"
  episode_steps :: int

text \<open>The property \<open>_n_step\<close>: the effective window size.\<close>

definition eff_n_step :: "adder \<Rightarrow> int" where
  "eff_n_step a = last_idx a - first_idx a"

subsection \<open>\<open>_compute_cumulative_quantities\<close>\<close>

text \<open>
  The nested reward and discount structures are taken after \<open>tree.flatten\<close>: one
  sequence of scalars per leaf. \<open>a[0]\<close> and \<open>r[i]\<close> raise \<open>IndexError\<close> out of range.
\<close>

definition item0 :: "real list \<Rightarrow> error + real" where
  "item0 xs = (case xs of [] \<Rightarrow> Inl IndexError | x # _ \<Rightarrow> Inr x)"

definition item :: "real list \<Rightarrow> nat \<Rightarrow> error + real" where
  "item xs i = (if i < length xs then Inr (xs ! i) else Inl IndexError)"

fun first_items :: "real list list \<Rightarrow> error + real list" where
  "first_items [] = Inr []"
| "first_items (xs # xss) =
     (case item0 xs of Inl e \<Rightarrow> Inl e
      | Inr x \<Rightarrow> (case first_items xss of Inl e \<Rightarrow> Inl e | Inr ys \<Rightarrow> Inr (x # ys)))"

text \<open>
  One pass of the inner loop for a fixed \<open>i\<close>: per leaf, \<open>td *= sd\<close>,
  \<open>nsr += r[i] * td\<close>, \<open>td *= d[i]\<close>. The five zipped lists stop at the shortest.
\<close>

fun inner_loop ::
  "nat \<Rightarrow> real list \<Rightarrow> real list \<Rightarrow> real list list \<Rightarrow> real list list \<Rightarrow> real list
     \<Rightarrow> error + (real list \<times> real list)" where
  "inner_loop i (nsr # nsrs) (td # tds) (r # rs) (d # ds) (sd # sds) =
     (let td1 = td * sd in
      case item r i of Inl e \<Rightarrow> Inl e
      | Inr ri \<Rightarrow>
          (let nsr1 = nsr + ri * td1 in
           case item d i of Inl e \<Rightarrow> Inl e
           | Inr di \<Rightarrow>
               (let td2 = td1 * di in
                case inner_loop i nsrs tds rs ds sds of Inl e \<Rightarrow> Inl e
                | Inr (nsrs', tds') \<Rightarrow> Inr (nsr1 # nsrs', td2 # tds'))))"
| "inner_loop i nsrs tds rs ds sds = Inr (nsrs, tds)"

text \<open>The outer loop \<open>for i in range(1, self._n_step)\<close>, over the list of its indices.\<close>

fun outer_loop ::
  "nat list \<Rightarrow> real list \<Rightarrow> real list \<Rightarrow> real list list \<Rightarrow> real list list \<Rightarrow> real list
     \<Rightarrow> error + (real list \<times> real list)" where
  "outer_loop [] nsrs tds rs ds sds = Inr (nsrs, tds)"
| "outer_loop (i # is) nsrs tds rs ds sds =
     (case inner_loop i nsrs tds rs ds sds of Inl e \<Rightarrow> Inl e
      | Inr (nsrs', tds') \<Rightarrow> outer_loop is nsrs' tds' rs ds sds)"

definition compute_cumulative_quantities ::
  "adder \<Rightarrow> real list list \<Rightarrow> real list list \<Rightarrow> error + (real list \<times> real list)" where
  "compute_cumulative_quantities a flat_rewards flat_discounts =
     (if length flat_rewards \<noteq> length flat_discounts then Inl StructureError
      else
        let flat_self_discount = replicate (length flat_rewards) (self_discount a) in
        case first_items flat_discounts of Inl e \<Rightarrow> Inl e
        | Inr total_discount \<Rightarrow>
            (case first_items flat_rewards of Inl e \<Rightarrow> Inl e
             | Inr n_step_return \<Rightarrow>
                 outer_loop [1 ..< nat (eff_n_step a)] n_step_return total_discount
                   flat_rewards flat_discounts flat_self_discount))"

text \<open>The closed forms of the specification, for one leaf and a window of \<open>k\<close> steps.\<close>

definition spec_n_step_return :: "real \<Rightarrow> real list \<Rightarrow> real list \<Rightarrow> nat \<Rightarrow> real" where
  "spec_n_step_return sd r d k = (\<Sum>i<k. r ! i * (\<Prod>j<i. sd * d ! j))"

definition spec_total_discount :: "real \<Rightarrow> real list \<Rightarrow> nat \<Rightarrow> real" where
  "spec_total_discount sd d k = sd ^ (k - 1) * (\<Prod>j<k. d ! j)"


subsection \<open>Construction, \<open>add\<close> and \<open>reset\<close>: the window pointers\<close>

text \<open>
  Modelled from the spec: the base adder (mava/adders/reverb/base.py) and the trajectory
  writer it owns are not among the sources. The spec gives the writer an \<open>episode_steps\<close>
  counter (steps appended since the last reset) and an \<open>append(step, partial_step)\<close>; a
  partial append leaves the current step open and the counter unchanged.
\<close>

definition writer_append :: "bool \<Rightarrow> adder \<Rightarrow> adder" where
  "writer_append partial_step a =
     (if partial_step then a else a\<lparr>episode_steps := episode_steps a + 1\<rparr>)"

text \<open>
  Modelled from the spec: the constructor of the absent base adder receives
  \<open>max_sequence_length = n_step + 1\<close> and creates the writer with an empty buffer; the
  spec names no failure of it. The result is the writer's initial \<open>episode_steps\<close>.
\<close>

definition base_init :: "int \<Rightarrow> error + int" where
  "base_init max_sequence_length = Inr 0"

text \<open>
  \<open>__init__\<close> stores its arguments, zeroes both pointers and calls the base constructor.
  Its body holds no check of \<open>n_step\<close> and no \<open>raise\<close>.
\<close>

definition init :: "int \<Rightarrow> real \<Rightarrow> (table \<times> net_key list) list option \<Rightarrow> error + adder" where
  "init n agent_discount cfg =
     (case base_init (n + 1) of Inl e \<Rightarrow> Inl e
      | Inr steps \<Rightarrow>
          Inr \<lparr>n_step = n, self_discount = agent_discount, first_idx = 0, last_idx = 0,
               table_net_config = cfg, episode_steps = steps\<rparr>)"

text \<open>
  What \<open>_write\<close> does to the adder's own state: it appends the computed return and
  discount to the writer with \<open>partial_step = (episode_steps <= last_idx)\<close>; the window
  it collapses into one transition has the effective size \<open>_n_step\<close>. It moves neither
  pointer. What the transition holds, where it is sent and which exceptions that raises
  is the subject of the later sections.
\<close>

definition write_append :: "adder \<Rightarrow> adder" where
  "write_append a = writer_append (episode_steps a \<le> last_idx a) a"

definition write_size :: "adder \<Rightarrow> int" where
  "write_size a = eff_n_step a"

text \<open>The pointer bookkeeping at the head of \<open>add\<close>.\<close>

definition add_pointers :: "adder \<Rightarrow> adder" where
  "add_pointers a =
     (let a1 = (if episode_steps a \<ge> n_step a then a\<lparr>first_idx := first_idx a + 1\<rparr> else a)
      in a1\<lparr>last_idx := last_idx a1 + 1\<rparr>)"

text \<open>
  Modelled from the spec: \<open>super().add\<close> of the absent base adder buffers the step
  (one complete append) and triggers one write.
\<close>

definition base_add :: "adder \<Rightarrow> adder \<times> int list" where
  "base_add a = (let a1 = writer_append False a in (write_append a1, [write_size a1]))"

definition add :: "adder \<Rightarrow> adder \<times> int list" where
  "add a = base_add (add_pointers a)"

text \<open>
  Modelled from the spec: \<open>super().reset\<close> of the absent base adder clears the buffer.
\<close>

definition base_reset :: "adder \<Rightarrow> adder" where
  "base_reset a = a\<lparr>episode_steps := 0\<rparr>"

definition reset :: "adder \<Rightarrow> adder" where
  "reset a = (base_reset a)\<lparr>first_idx := 0, last_idx := 0\<rparr>"

text \<open>
  The states an adder passes through: construction with \<open>n_step >= 1\<close>, then any
  sequence of \<open>add\<close> and \<open>reset\<close>.
\<close>

inductive reachable :: "adder \<Rightarrow> bool" where
  reachable_init: "1 \<le> n \<Longrightarrow> init n agent_discount cfg = Inr a \<Longrightarrow> reachable a"
| reachable_add: "reachable a \<Longrightarrow> reachable (fst (add a))"
| reachable_reset: "reachable a \<Longrightarrow> reachable (reset a)"

definition window_inv :: "adder \<Rightarrow> bool" where
  "window_inv a \<longleftrightarrow>
     0 \<le> first_idx a \<and> first_idx a \<le> last_idx a \<and> last_idx a - first_idx a \<le> n_step a"

text \<open>The adder \<open>t\<close> steps into an episode.\<close>

definition after_steps ::
  "int \<Rightarrow> real \<Rightarrow> (table \<times> net_key list) list option \<Rightarrow> nat \<Rightarrow> adder" where
  "after_steps n agent_discount cfg t =
     \<lparr>n_step = n, self_discount = agent_discount, first_idx = max 0 (int t - n), last_idx = int t,
      table_net_config = cfg, episode_steps = int t\<rparr>"

subsection \<open>\<open>_write\<close>: routing the transition to the tables\<close>

text \<open>
  A Python \<open>dict\<close> is an association list in insertion order: \<open>d[k]\<close> raises \<open>KeyError\<close>
  on a missing key, \<open>d[k] = v\<close> overwrites in place or appends.
\<close>

definition getitem :: "('k \<times> 'v) list \<Rightarrow> 'k \<Rightarrow> error + 'v" where
  "getitem d k = (case map_of d k of None \<Rightarrow> Inl KeyError | Some v \<Rightarrow> Inr v)"

definition setitem :: "'k \<Rightarrow> 'v \<Rightarrow> ('k \<times> 'v) list \<Rightarrow> ('k \<times> 'v) list" where
  "setitem k v d = AList.update k v d"

text \<open>
  \<open>mava_types.Transition\<close>. Every field is keyed by agent; \<open>extras\<close> maps the name of an
  extra to its per-agent values, of which \<open>network_keys\<close> holds strings.
\<close>

record ('o, 'a) transition =
  observation :: "(agent \<times> 'o) list"
  extras :: "(string \<times> (agent \<times> string) list) list"
  action :: "(agent \<times> 'a) list"
  reward :: "(agent \<times> real) list"
  discount :: "(agent \<times> real) list"
  next_observation :: "(agent \<times> 'o) list"
  next_extras :: "(string \<times> (agent \<times> string) list) list"

text \<open>An item handed to \<open>create_item\<close>: table, priority, trajectory.\<close>

type_synonym ('o, 'a) item = "table \<times> real \<times> ('o, 'a) transition"

text \<open>
  The dict comprehension \<open>{str(net_keys[agent]): agent for agent in agents}\<close>: a later
  agent overwrites an earlier one under the same key.
\<close>

fun trans_nets_agent ::
  "(agent \<times> net_key) list \<Rightarrow> agent list \<Rightarrow> (net_key \<times> agent) list
     \<Rightarrow> error + (net_key \<times> agent) list" where
  "trans_nets_agent net_keys [] acc = Inr acc"
| "trans_nets_agent net_keys (agent # agents) acc =
     (case getitem net_keys agent of Inl e \<Rightarrow> Inl e
      | Inr k \<Rightarrow> trans_nets_agent net_keys agents (setitem k agent acc))"

text \<open>
  \<open>self._table_net_config[table]\<close>: subscripting \<open>None\<close> raises \<open>TypeError\<close>.
  \<open>not self._table_net_config\<close> holds for \<open>None\<close> and for the empty dict.
\<close>

definition config_getitem ::
  "(table \<times> net_key list) list option \<Rightarrow> table \<Rightarrow> error + net_key list" where
  "config_getitem cfg table = (case cfg of None \<Rightarrow> Inl TypeError | Some c \<Rightarrow> getitem c table)"

definition falsy :: "(table \<times> net_key list) list option \<Rightarrow> bool" where
  "falsy cfg \<longleftrightarrow> cfg = None \<or> cfg = Some []"

text \<open>
  The loop \<open>for a_i, net_key in enumerate(self._table_net_config[table])\<close>, filling the
  five dicts of the new transition; \<open>agents[a_i]\<close> raises \<open>IndexError\<close> past the end.
  \<open>extras\<close> and \<open>next_extras\<close> are never assigned.
\<close>

fun reindex ::
  "('o, 'a) transition \<Rightarrow> (net_key \<times> agent) list \<Rightarrow> agent list \<Rightarrow> nat \<Rightarrow> net_key list
     \<Rightarrow> ('o, 'a) transition \<Rightarrow> error + ('o, 'a) transition" where
  "reindex t tna agents a_i [] new = Inr new"
| "reindex t tna agents a_i (net_key # rest) new =
     (case getitem tna net_key of Inl e \<Rightarrow> Inl e
      | Inr cur_agent \<Rightarrow>
     (if length agents \<le> a_i then Inl IndexError
      else let want_agent = agents ! a_i in
     (case getitem (observation t) cur_agent of Inl e \<Rightarrow> Inl e
      | Inr ob \<Rightarrow>
     (case getitem (action t) cur_agent of Inl e \<Rightarrow> Inl e
      | Inr ac \<Rightarrow>
     (case getitem (reward t) cur_agent of Inl e \<Rightarrow> Inl e
      | Inr rw \<Rightarrow>
     (case getitem (discount t) cur_agent of Inl e \<Rightarrow> Inl e
      | Inr di \<Rightarrow>
     (case getitem (next_observation t) cur_agent of Inl e \<Rightarrow> Inl e
      | Inr nob \<Rightarrow>
          reindex t tna agents (Suc a_i) rest
            (new\<lparr>observation := setitem want_agent ob (observation new),
                 action := setitem want_agent ac (action new),
                 reward := setitem want_agent rw (reward new),
                 discount := setitem want_agent di (discount new),
                 next_observation := setitem want_agent nob (next_observation new)\<rparr>))))))))"

definition empty_transition :: "('o, 'a) transition" where
  "empty_transition =
     \<lparr>observation = [], extras = [], action = [], reward = [], discount = [],
      next_observation = [], next_extras = []\<rparr>"

text \<open>
  The body of \<open>for table, priority in table_priorities.items()\<close>: the item created for
  this table, \<open>None\<close> when the table is skipped, or the exception raised.
\<close>

definition route_table ::
  "(table \<times> net_key list) list option \<Rightarrow> ('o, 'a) transition \<Rightarrow> table \<Rightarrow> real
     \<Rightarrow> error + ('o, 'a) item option" where
  "route_table cfg t table priority =
     (case getitem (extras t) ''network_keys'' of Inl e \<Rightarrow> Inl e
      | Inr net_keys \<Rightarrow>
     (let agents = sort (map fst (action t)) in
      case trans_nets_agent net_keys agents [] of Inl e \<Rightarrow> Inl e
      | Inr tna \<Rightarrow>
     (case (if falsy cfg then Inr True
            else case config_getitem cfg table of Inl e \<Rightarrow> Inl e
                 | Inr req \<Rightarrow> Inr (list_all (\<lambda>elem. elem \<in> fst ` set tna) req)) of
        Inl e \<Rightarrow> Inl e
      | Inr False \<Rightarrow> Inr None
      | Inr True \<Rightarrow>
     (case config_getitem cfg table of Inl e \<Rightarrow> Inl e
      | Inr req \<Rightarrow>
     (case reindex t tna agents 0 req empty_transition of Inl e \<Rightarrow> Inl e
      | Inr new_transition \<Rightarrow> Inr (Some (table, priority, new_transition)))))))"

text \<open>
  The loop over the tables: the items created so far, the flag \<open>created_item\<close>, and the
  exception that ended the loop, if any.
\<close>

fun route_tables ::
  "(table \<times> net_key list) list option \<Rightarrow> ('o, 'a) transition \<Rightarrow> (table \<times> real) list
     \<Rightarrow> ('o, 'a) item list \<Rightarrow> bool \<Rightarrow> ('o, 'a) item list \<times> bool \<times> error option" where
  "route_tables cfg t [] items created_item = (items, created_item, None)"
| "route_tables cfg t ((table, priority) # rest) items created_item =
     (case route_table cfg t table priority of
        Inl e \<Rightarrow> (items, created_item, Some e)
      | Inr None \<Rightarrow> route_tables cfg t rest items created_item
      | Inr (Some it) \<Rightarrow> route_tables cfg t rest (items @ [it]) True)"

text \<open>
  \<open>_write\<close> from the transition on: \<open>table_priorities\<close> is what \<open>calculate_priorities\<close>
  returned, taken as given. The result is the list of items passed to \<open>create_item\<close> and
  the exception raised, if any; \<open>flush\<close> creates and removes no item.
\<close>

definition write_transition ::
  "adder \<Rightarrow> ('o, 'a) transition \<Rightarrow> (table \<times> real) list
     \<Rightarrow> ('o, 'a) item list \<times> error option" where
  "write_transition a t table_priorities =
     (case route_tables (table_net_config a) t table_priorities [] False of
        (items, created_item, Some e) \<Rightarrow> (items, Some e)
      | (items, created_item, None) \<Rightarrow>
          (if \<not> created_item then (items, Some (ValidationError (map fst (action t))))
           else (items, None)))"

text \<open>
  What the specification says of a routed transition: slot \<open>i\<close> (the \<open>i\<close>-th agent in
  sorted order) holds the data of the agent found under the \<open>i\<close>-th required network key.
\<close>

definition slot_data ::
  "(agent \<times> 'v) list \<Rightarrow> (net_key \<times> agent) list \<Rightarrow> agent list \<Rightarrow> net_key list
     \<Rightarrow> (agent \<times> 'v) list" where
  "slot_data d tna agents req =
     map2 (\<lambda>want_agent net_key. (want_agent, the (map_of d (the (map_of tna net_key)))))
       agents req"

text \<open>
  The whole routed transition in the specification's words, and what it asks of an agent
  whose data is read: an entry in each of the five per-agent fields.
\<close>

definition routed ::
  "('o, 'a) transition \<Rightarrow> (net_key \<times> agent) list \<Rightarrow> agent list \<Rightarrow> net_key list
     \<Rightarrow> ('o, 'a) transition" where
  "routed t tna agents req =
     \<lparr>observation = slot_data (observation t) tna agents req,
      extras = [],
      action = slot_data (action t) tna agents req,
      reward = slot_data (reward t) tna agents req,
      discount = slot_data (discount t) tna agents req,
      next_observation = slot_data (next_observation t) tna agents req,
      next_extras = []\<rparr>"

definition recorded :: "('o, 'a) transition \<Rightarrow> agent \<Rightarrow> bool" where
  "recorded t agent \<longleftrightarrow>
     map_of (observation t) agent \<noteq> None \<and> map_of (action t) agent \<noteq> None \<and>
     map_of (reward t) agent \<noteq> None \<and> map_of (discount t) agent \<noteq> None \<and>
     map_of (next_observation t) agent \<noteq> None"

text \<open>The agents already given a slot while the new transition is being filled.\<close>

definition slots_within :: "('o, 'a) transition \<Rightarrow> agent set \<Rightarrow> bool" where
  "slots_within new S \<longleftrightarrow>
     fst ` set (observation new) \<subseteq> S \<and> fst ` set (action new) \<subseteq> S \<and>
     fst ` set (reward new) \<subseteq> S \<and> fst ` set (discount new) \<subseteq> S \<and>
     fst ` set (next_observation new) \<subseteq> S"

definition append_slots ::
  "('o, 'a) transition \<Rightarrow> ('o, 'a) transition \<Rightarrow> (net_key \<times> agent) list \<Rightarrow> agent list
     \<Rightarrow> net_key list \<Rightarrow> ('o, 'a) transition" where
  "append_slots new t tna agents req =
     new\<lparr>observation := observation new @ slot_data (observation t) tna agents req,
         action := action new @ slot_data (action t) tna agents req,
         reward := reward new @ slot_data (reward t) tna agents req,
         discount := discount new @ slot_data (discount t) tna agents req,
         next_observation := next_observation new @ slot_data (next_observation t) tna agents req\<rparr>"

definition table_satisfied ::
  "(table \<times> net_key list) list \<Rightarrow> (net_key \<times> agent) list \<Rightarrow> table \<Rightarrow> bool" where
  "table_satisfied c tna table =
     (case map_of c table of None \<Rightarrow> False
      | Some req \<Rightarrow> list_all (\<lambda>elem. elem \<in> fst ` set tna) req)"

text \<open>
  The keys that the transition assigns: the network key recorded in
  \<open>extras['network_keys']\<close> for each agent of \<open>transition.action\<close>. A table is matched when
  its whole required list is among them.
\<close>

definition assigned_keys :: "(agent \<times> net_key) list \<Rightarrow> ('o, 'a) transition \<Rightarrow> net_key list" where
  "assigned_keys net_keys t = List.map_filter (map_of net_keys) (map fst (action t))"

definition table_matched ::
  "(table \<times> net_key list) list \<Rightarrow> net_key list \<Rightarrow> table \<Rightarrow> bool" where
  "table_matched c assigned table =
     (case map_of c table of None \<Rightarrow> False
      | Some req \<Rightarrow> list_all (\<lambda>elem. elem \<in> set assigned) req)"

subsection \<open>An episode: \<open>add\<close>, \<open>_write\<close> and \<open>_write_last\<close> with the routing\<close>

text \<open>
  \<open>_write\<close> as a whole. The transition it forms from the writer's buffer (the reads of
  \<open>history\<close> and \<open>_compute_cumulative_quantities\<close>) is taken as given by \<open>formed\<close>, a
  function of the adder's state; the append and the routing are those modelled above.
  An exception of the routing ends \<open>_write\<close>; otherwise the result is the adder, the size
  of the window collapsed and the items created.
\<close>

definition write_once ::
  "(adder \<Rightarrow> ('o, 'a) transition) \<Rightarrow> (table \<times> real) list \<Rightarrow> adder
     \<Rightarrow> error + (adder \<times> int \<times> ('o, 'a) item list)" where
  "write_once formed table_priorities a =
     (let a1 = write_append a in
      case write_transition a1 (formed a1) table_priorities of
        (items, Some e) \<Rightarrow> Inl e
      | (items, None) \<Rightarrow> Inr (a1, write_size a1, items))"

text \<open>
  Modelled from the spec: \<open>super().add\<close> of the absent base adder buffers the step
  (one complete append) and triggers one write, whose exception it lets through.
\<close>

definition base_add_write ::
  "(adder \<Rightarrow> ('o, 'a) transition) \<Rightarrow> (table \<times> real) list \<Rightarrow> adder
     \<Rightarrow> error + (adder \<times> int \<times> ('o, 'a) item list)" where
  "base_add_write formed table_priorities a = write_once formed table_priorities (writer_append False a)"

text \<open>\<open>add\<close> with the write it triggers: the pointer bookkeeping, then the base adder.\<close>

definition add_write ::
  "(adder \<Rightarrow> ('o, 'a) transition) \<Rightarrow> (table \<times> real) list \<Rightarrow> adder
     \<Rightarrow> error + (adder \<times> int \<times> ('o, 'a) item list)" where
  "add_write formed table_priorities a = base_add_write formed table_priorities (add_pointers a)"

text \<open>
  \<open>_write_last\<close>: one increment of \<open>first_idx\<close>, then the \<open>while\<close> loop. The result lists,
  per transition written, the window size and the items created.
\<close>

function write_last_loop ::
  "(adder \<Rightarrow> ('o, 'a) transition) \<Rightarrow> (table \<times> real) list \<Rightarrow> adder
     \<Rightarrow> error + (adder \<times> (int \<times> ('o, 'a) item list) list)" where
  "write_last_loop formed table_priorities a =
     (if first_idx a < last_idx a then
        (case write_once formed table_priorities a of Inl e \<Rightarrow> Inl e
         | Inr w \<Rightarrow>
             (case write_last_loop formed table_priorities
                     ((fst w)\<lparr>first_idx := first_idx (fst w) + 1\<rparr>) of
                Inl e \<Rightarrow> Inl e
              | Inr r \<Rightarrow> Inr (fst r, snd w # snd r)))
      else Inr (a, []))"
  by pat_completeness auto
termination
  by (relation "measure (\<lambda>(formed, table_priorities, a). nat (last_idx a - first_idx a))")
    (auto simp: write_once_def write_append_def writer_append_def Let_def
      split: prod.splits option.splits if_splits)

declare write_last_loop.simps [simp del]

definition write_last ::
  "(adder \<Rightarrow> ('o, 'a) transition) \<Rightarrow> (table \<times> real) list \<Rightarrow> adder
     \<Rightarrow> error + (adder \<times> (int \<times> ('o, 'a) item list) list)" where
  "write_last formed table_priorities a =
     write_last_loop formed table_priorities (a\<lparr>first_idx := first_idx a + 1\<rparr>)"

text \<open>
  An episode: \<open>T\<close> calls of \<open>add\<close>, then the end-of-episode write path. The first
  exception ends it.
\<close>

fun adds ::
  "(adder \<Rightarrow> ('o, 'a) transition) \<Rightarrow> (table \<times> real) list \<Rightarrow> nat \<Rightarrow> adder
     \<Rightarrow> error + (adder \<times> (int \<times> ('o, 'a) item list) list)" where
  "adds formed table_priorities 0 a = Inr (a, [])"
| "adds formed table_priorities (Suc t) a =
     (case add_write formed table_priorities a of Inl e \<Rightarrow> Inl e
      | Inr w \<Rightarrow>
          (case adds formed table_priorities t (fst w) of Inl e \<Rightarrow> Inl e
           | Inr r \<Rightarrow> Inr (fst r, snd w # snd r)))"

definition episode ::
  "(adder \<Rightarrow> ('o, 'a) transition) \<Rightarrow> (table \<times> real) list \<Rightarrow> nat \<Rightarrow> adder
     \<Rightarrow> error + (adder \<times> (int \<times> ('o, 'a) item list) list)" where
  "episode formed table_priorities T a =
     (case adds formed table_priorities T a of Inl e \<Rightarrow> Inl e
      | Inr r1 \<Rightarrow>
          (case write_last formed table_priorities (fst r1) of Inl e \<Rightarrow> Inl e
           | Inr r2 \<Rightarrow> Inr (fst r2, snd r1 @ snd r2)))"

text \<open>
  The window sizes of the transitions of one episode, in the order written, for an adder
  constructed with \<open>n_step = N\<close>, any discount and any table configuration.
\<close>

definition episode_sizes ::
  "(adder \<Rightarrow> ('o, 'a) transition) \<Rightarrow> (table \<times> real) list \<Rightarrow> int \<Rightarrow> real
     \<Rightarrow> (table \<times> net_key list) list option \<Rightarrow> nat \<Rightarrow> error + int list" where
  "episode_sizes formed table_priorities N agent_discount cfg T =
     (case init N agent_discount cfg of Inl e \<Rightarrow> Inl e
      | Inr a \<Rightarrow>
          (case episode formed table_priorities T a of Inl e \<Rightarrow> Inl e
           | Inr r \<Rightarrow> Inr (map fst (snd r))))"

text \<open>
  Test data: a transition of two agents, \<open>agent_0\<close> on \<open>network_a\<close> and \<open>agent_1\<close> on
  \<open>network_b\<close>; the same with both agents on \<open>network_a\<close>; an adder with a given table
  configuration.
\<close>

definition example_transition :: "(nat, nat) transition" where
  "example_transition =
     \<lparr>observation = [(''agent_0'', 10), (''agent_1'', 11)],
      extras = [(''network_keys'', [(''agent_0'', ''network_a''), (''agent_1'', ''network_b'')])],
      action = [(''agent_0'', 20), (''agent_1'', 21)],
      reward = [(''agent_0'', 1), (''agent_1'', 2)],
      discount = [(''agent_0'', 1 / 2), (''agent_1'', 1 / 4)],
      next_observation = [(''agent_0'', 30), (''agent_1'', 31)],
      next_extras = [(''network_keys'', [(''agent_0'', ''network_a''), (''agent_1'', ''network_b'')])]\<rparr>"

definition shared_key_transition :: "(nat, nat) transition" where
  "shared_key_transition =
     example_transition
       \<lparr>extras := [(''network_keys'', [(''agent_0'', ''network_a''), (''agent_1'', ''network_a'')])]\<rparr>"

definition example_adder :: "(table \<times> net_key list) list option \<Rightarrow> adder" where
  "example_adder cfg =
     \<lparr>n_step = 3, self_discount = 1, first_idx = 0, last_idx = 1, table_net_config = cfg,
      episode_steps = 1\<rparr>"

section \<open>The sebulba learner loop (mava/systems/ppo/sebulba/ff_ippo.py)\<close>

text \<open>
  The learner is one sequential thread. What it does to its collaborators is recorded as a
  list of events, in program order.
\<close>

datatype ('b, 'p) event = PipelineGet 'b | Learn 'p | SourceUpdate nat 'p | QueuePut

text \<open>
  The state the loop works on: \<open>learner_state\<close>; the entries the pipeline will deliver, oldest
  first; the contents of each \<open>ParamsSource\<close>; what was put on \<open>learner_queue\<close>; the events.
\<close>

record ('s, 'p, 'b, 'm) learner_world =
  learner_state :: 's
  pipeline :: "'b list"
  params_sources :: "'p list"
  learner_queue :: "('m list \<times> 's) list"
  events :: "('b, 'p) event list"

text \<open>
  Modelled from the spec: \<open>ParamsSource.update\<close> (mava/utils/sebulba_utils.py, not among
  the sources) replaces the slot's contents with the new parameters.
\<close>

definition params_source_update :: "'p \<Rightarrow> 'p \<Rightarrow> 'p" where
  "params_source_update new_params slot = new_params"

text \<open>
  Modelled from the spec: \<open>Pipeline.get(block=True)\<close> (same absent module) dequeues the
  oldest entry and blocks while the pipeline is empty; with nothing left to be delivered
  the call never returns, which is the value \<open>None\<close>.
\<close>

definition pipeline_get :: "'b list \<Rightarrow> ('b \<times> 'b list) option" where
  "pipeline_get q = (case q of [] \<Rightarrow> None | b # rest \<Rightarrow> Some (b, rest))"

text \<open>The loop \<open>for source in params_sources: source.update(unreplicated_params)\<close>.\<close>

fun publish :: "'p \<Rightarrow> nat \<Rightarrow> 'p list \<Rightarrow> 'p list \<times> ('b, 'p) event list" where
  "publish p i [] = ([], [])"
| "publish p i (source # rest) =
     (let r = publish p (Suc i) rest
      in (params_source_update p source # fst r, SourceUpdate i p # snd r))"

text \<open>
  One pass of the inner loop: get a batch, \<open>learn\<close>, unreplicate the new parameters
  (\<open>params_of\<close> stands for \<open>flax.jax_utils.unreplicate(learner_state.params)\<close>), publish
  them to every source. \<open>metrics\<close> is the list the evaluation step collects.
\<close>

definition update_iteration ::
  "('s \<Rightarrow> 'b \<Rightarrow> 's \<times> 'm) \<Rightarrow> ('s \<Rightarrow> 'p) \<Rightarrow> ('s, 'p, 'b, 'm) learner_world \<Rightarrow> 'm list
     \<Rightarrow> (('s, 'p, 'b, 'm) learner_world \<times> 'm list) option" where
  "update_iteration learn params_of w metrics =
     (case pipeline_get (pipeline w) of None \<Rightarrow> None
      | Some (traj_batch, rest) \<Rightarrow>
          (let res = learn (learner_state w) traj_batch;
               unreplicated_params = params_of (fst res);
               r = publish unreplicated_params 0 (params_sources w)
           in Some (w\<lparr>learner_state := fst res, pipeline := rest, params_sources := fst r,
                      events := events w @ [PipelineGet traj_batch, Learn unreplicated_params]
                                 @ snd r\<rparr>,
                    metrics @ [snd res])))"

text \<open>\<open>for _update in range(config.system.num_updates_per_eval)\<close>.\<close>

fun updates ::
  "('s \<Rightarrow> 'b \<Rightarrow> 's \<times> 'm) \<Rightarrow> ('s \<Rightarrow> 'p) \<Rightarrow> nat \<Rightarrow> ('s, 'p, 'b, 'm) learner_world \<Rightarrow> 'm list
     \<Rightarrow> (('s, 'p, 'b, 'm) learner_world \<times> 'm list) option" where
  "updates learn params_of 0 w metrics = Some (w, metrics)"
| "updates learn params_of (Suc n) w metrics =
     (case update_iteration learn params_of w metrics of None \<Rightarrow> None
      | Some (w', metrics') \<Rightarrow> updates learn params_of n w' metrics')"

text \<open>One evaluation step: the inner loop, then the hand-over to the evaluator.\<close>

definition eval_step ::
  "('s \<Rightarrow> 'b \<Rightarrow> 's \<times> 'm) \<Rightarrow> ('s \<Rightarrow> 'p) \<Rightarrow> nat \<Rightarrow> ('s, 'p, 'b, 'm) learner_world
     \<Rightarrow> ('s, 'p, 'b, 'm) learner_world option" where
  "eval_step learn params_of num_updates_per_eval w =
     (case updates learn params_of num_updates_per_eval w [] of None \<Rightarrow> None
      | Some (w', metrics) \<Rightarrow>
          Some (w'\<lparr>learner_queue := learner_queue w' @ [(metrics, learner_state w')],
                   events := events w' @ [QueuePut]\<rparr>))"

text \<open>\<open>for _eval_step in range(config.arch.num_evaluation)\<close>.\<close>

fun eval_steps ::
  "('s \<Rightarrow> 'b \<Rightarrow> 's \<times> 'm) \<Rightarrow> ('s \<Rightarrow> 'p) \<Rightarrow> nat \<Rightarrow> nat \<Rightarrow> ('s, 'p, 'b, 'm) learner_world
     \<Rightarrow> ('s, 'p, 'b, 'm) learner_world option" where
  "eval_steps learn params_of 0 num_updates_per_eval w = Some w"
| "eval_steps learn params_of (Suc n) num_updates_per_eval w =
     (case eval_step learn params_of num_updates_per_eval w of None \<Rightarrow> None
      | Some w' \<Rightarrow> eval_steps learn params_of n num_updates_per_eval w')"

text \<open>\<open>learner\<close>; \<open>range\<close> of a negative number is empty.\<close>

definition learner ::
  "('s \<Rightarrow> 'b \<Rightarrow> 's \<times> 'm) \<Rightarrow> ('s \<Rightarrow> 'p) \<Rightarrow> int \<Rightarrow> int \<Rightarrow> ('s, 'p, 'b, 'm) learner_world
     \<Rightarrow> ('s, 'p, 'b, 'm) learner_world option" where
  "learner learn params_of num_evaluation num_updates_per_eval w =
     eval_steps learn params_of (nat num_evaluation) (nat num_updates_per_eval) w"

text \<open>
  The property of an event list that the specification asks for: every gradient update is
  followed at once by an update of each of the \<open>n\<close> sources, in order, with the parameters
  that update produced.
\<close>

fun published :: "nat \<Rightarrow> ('b, 'p) event list \<Rightarrow> bool" where
  "published n [] = True"
| "published n (Learn p # tr) =
     (take n tr = map (\<lambda>i. SourceUpdate i p) [0 ..< n] \<and> published n tr)"
| "published n (e # tr) = published n tr"

fun is_learn :: "('b, 'p) event \<Rightarrow> bool" where
  "is_learn (Learn p) = True"
| "is_learn e = False"

section \<open>Properties\<close>

subsection \<open>The N-step return\<close>

lemma leaf_step_algebra:
  assumes "0 < i"
  shows "spec_total_discount sd d i * sd = (\<Prod>j<i. sd * d ! j)"
proof -
  have "(\<Prod>j<i. sd * d ! j) = sd ^ i * (\<Prod>j<i. d ! j)"
    by (simp add: prod.distrib)
  moreover have "sd ^ i = sd ^ (i - 1) * sd"
    using assms by (cases i) simp_all
  ultimately show ?thesis
    by (simp add: spec_total_discount_def mult_ac)
qed

lemma spec_n_step_return_Suc:
  "0 < i \<Longrightarrow> spec_n_step_return sd r d (Suc i) =
     spec_n_step_return sd r d i + r ! i * (spec_total_discount sd d i * sd)"
  by (simp add: spec_n_step_return_def leaf_step_algebra)

lemma spec_total_discount_Suc:
  "0 < i \<Longrightarrow> spec_total_discount sd d (Suc i) = spec_total_discount sd d i * sd * d ! i"
  by (cases i) (simp_all add: spec_total_discount_def mult_ac)

lemma inner_loop_spec:
  assumes "length rs = length ds" "0 < i"
    and "\<forall>r\<in>set rs. i < length r" "\<forall>d\<in>set ds. i < length d"
  shows "inner_loop i (map2 (\<lambda>r d. spec_n_step_return sd r d i) rs ds)
           (map (\<lambda>d. spec_total_discount sd d i) ds) rs ds (replicate (length rs) sd)
         = Inr (map2 (\<lambda>r d. spec_n_step_return sd r d (Suc i)) rs ds,
                map (\<lambda>d. spec_total_discount sd d (Suc i)) ds)"
  using assms
proof (induction rs ds rule: list_induct2)
  case Nil
  then show ?case by simp
next
  case (Cons r rs d ds)
  then show ?case
    by (simp add: item_def Let_def spec_n_step_return_Suc spec_total_discount_Suc)
qed

lemma outer_loop_spec:
  assumes "length rs = length ds" "0 < m" "m \<le> k"
    and "\<forall>r\<in>set rs. k \<le> length r" "\<forall>d\<in>set ds. k \<le> length d"
  shows "outer_loop [m ..< k] (map2 (\<lambda>r d. spec_n_step_return sd r d m) rs ds)
           (map (\<lambda>d. spec_total_discount sd d m) ds) rs ds (replicate (length rs) sd)
         = Inr (map2 (\<lambda>r d. spec_n_step_return sd r d k) rs ds,
                map (\<lambda>d. spec_total_discount sd d k) ds)"
  using assms
proof (induction "k - m" arbitrary: m)
  case 0
  then show ?case by simp
next
  case (Suc n)
  then have lt: "m < k" by simp
  have inner: "inner_loop m (map2 (\<lambda>r d. spec_n_step_return sd r d m) rs ds)
           (map (\<lambda>d. spec_total_discount sd d m) ds) rs ds (replicate (length rs) sd)
         = Inr (map2 (\<lambda>r d. spec_n_step_return sd r d (Suc m)) rs ds,
                map (\<lambda>d. spec_total_discount sd d (Suc m)) ds)"
    using Suc.prems lt by (intro inner_loop_spec) auto
  have rest: "outer_loop [Suc m ..< k] (map2 (\<lambda>r d. spec_n_step_return sd r d (Suc m)) rs ds)
           (map (\<lambda>d. spec_total_discount sd d (Suc m)) ds) rs ds (replicate (length rs) sd)
         = Inr (map2 (\<lambda>r d. spec_n_step_return sd r d k) rs ds,
                map (\<lambda>d. spec_total_discount sd d k) ds)"
    using Suc.hyps Suc.prems lt by (intro Suc.hyps(1)) auto
  show ?case
    using lt inner rest by (simp add: upt_conv_Cons)
qed

lemma first_items_hd:
  "\<forall>xs\<in>set xss. xs \<noteq> [] \<Longrightarrow> first_items xss = Inr (map (\<lambda>xs. xs ! 0) xss)"
  by (induction xss) (auto simp: item0_def split: list.splits)

text \<open>
  C1. With an effective window of \<open>k\<close> steps (\<open>1 <= k <= n_step\<close>) and reward and discount
  sequences of length \<open>k\<close>, \<open>_compute_cumulative_quantities\<close> returns, for every leaf, the
  return \<open>sum_{i<k} reward[i] * prod_{j<i} (self_discount * discount[j])\<close> and the total
  discount \<open>self_discount^(k-1) * prod_{j<k} discount[j]\<close>: one application of the agent's
  discount fewer than the window is long.
\<close>

theorem compute_cumulative_quantities_closed_form:
  assumes "eff_n_step a = int k" "1 \<le> k" "int k \<le> n_step a"
    and "length flat_rewards = length flat_discounts"
    and "\<forall>r\<in>set flat_rewards. length r = k" "\<forall>d\<in>set flat_discounts. length d = k"
  shows "compute_cumulative_quantities a flat_rewards flat_discounts =
           Inr (map2 (\<lambda>r d. spec_n_step_return (self_discount a) r d k) flat_rewards flat_discounts,
                map (\<lambda>d. spec_total_discount (self_discount a) d k) flat_discounts)"
proof -
  have r0: "first_items flat_rewards = Inr (map (\<lambda>xs. xs ! 0) flat_rewards)"
    using assms by (intro first_items_hd) auto
  have d0: "first_items flat_discounts = Inr (map (\<lambda>xs. xs ! 0) flat_discounts)"
    using assms by (intro first_items_hd) auto
  have r1: "map (\<lambda>xs. xs ! 0) flat_rewards =
      map2 (\<lambda>r d. spec_n_step_return (self_discount a) r d 1) flat_rewards flat_discounts"
    using assms(4) by (induction flat_rewards flat_discounts rule: list_induct2)
      (simp_all add: spec_n_step_return_def)
  have d1: "map (\<lambda>xs. xs ! 0) flat_discounts =
      map (\<lambda>d. spec_total_discount (self_discount a) d 1) flat_discounts"
    by (simp add: spec_total_discount_def)
  have "outer_loop [1 ..< k]
          (map2 (\<lambda>r d. spec_n_step_return (self_discount a) r d 1) flat_rewards flat_discounts)
          (map (\<lambda>d. spec_total_discount (self_discount a) d 1) flat_discounts)
          flat_rewards flat_discounts (replicate (length flat_rewards) (self_discount a))
        = Inr (map2 (\<lambda>r d. spec_n_step_return (self_discount a) r d k) flat_rewards flat_discounts,
               map (\<lambda>d. spec_total_discount (self_discount a) d k) flat_discounts)"
    using assms by (intro outer_loop_spec) auto
  then show ?thesis
    using assms(1,4) r0 d0 r1 d1 by (simp add: compute_cumulative_quantities_def)
qed

theorem compute_cumulative_quantities_closed_form_witness:
  "compute_cumulative_quantities
     \<lparr>n_step = 3, self_discount = 1 / 2, first_idx = 2, last_idx = 5,
      table_net_config = None, episode_steps = 5\<rparr>
     [[1, 1, 1], [2, 0, 4]] [[1, 1, 0], [1, 1 / 2, 1]]
   = Inr ([7 / 4, 5 / 2], [0, 1 / 8])"
  using compute_cumulative_quantities_closed_form
    [of "\<lparr>n_step = 3, self_discount = 1 / 2, first_idx = 2, last_idx = 5,
           table_net_config = None, episode_steps = 5\<rparr>" 3
        "[[1, 1, 1], [2, 0, 4]]" "[[1, 1, 0], [1, 1 / 2, 1]]"]
  by (simp add: eff_n_step_def spec_n_step_return_def spec_total_discount_def
      lessThan_nat_numeral lessThan_Suc eval_nat_numeral)

subsection \<open>The window pointers over an episode\<close>


lemma init_after_steps: "0 \<le> n \<Longrightarrow> init n d cfg = Inr (after_steps n d cfg 0)"
  by (simp add: init_def base_init_def after_steps_def)

lemma add_after_steps:
  "0 \<le> n \<Longrightarrow> add (after_steps n d cfg t) = (after_steps n d cfg (Suc t), [min (int (Suc t)) n])"
  by (auto simp: add_def add_pointers_def base_add_def writer_append_def write_append_def
      write_size_def eff_n_step_def after_steps_def Let_def)

lemma reset_after_steps: "0 \<le> n \<Longrightarrow> reset (after_steps n d cfg t) = after_steps n d cfg 0"
  by (simp add: reset_def base_reset_def after_steps_def)

lemma reachable_after_steps:
  "reachable a \<Longrightarrow> \<exists>n d cfg t. 1 \<le> n \<and> a = after_steps n d cfg t"
proof (induction rule: reachable.induct)
  case (reachable_init n agent_discount cfg a)
  then have "a = after_steps n agent_discount cfg 0"
    using init_after_steps [of n agent_discount cfg] by simp
  with reachable_init show ?case by blast
next
  case (reachable_add a)
  then obtain n d cfg t where "1 \<le> n" "a = after_steps n d cfg t" by blast
  then have "fst (add a) = after_steps n d cfg (Suc t)"
    by (simp add: add_after_steps)
  with \<open>1 \<le> n\<close> show ?case by blast
next
  case (reachable_reset a)
  then obtain n d cfg t where "1 \<le> n" "a = after_steps n d cfg t" by blast
  then have "reset a = after_steps n d cfg 0"
    by (simp add: reset_after_steps)
  with \<open>1 \<le> n\<close> show ?case by blast
qed

text \<open>
  C5. In every state reached from a construction with \<open>n_step >= 1\<close> by \<open>add\<close> and \<open>reset\<close>,
  \<open>0 <= first_idx <= last_idx\<close> and \<open>last_idx - first_idx <= n_step\<close>; \<open>add\<close> and \<open>reset\<close>
  keep this; \<open>add\<close> advances \<open>last_idx\<close> by one and \<open>first_idx\<close> by one exactly when the
  window was already of size \<open>n_step\<close>; \<open>reset\<close> zeroes both; after an \<open>add\<close> the effective
  window lies between 1 and \<open>n_step\<close>.
\<close>

theorem window_pointers_invariant:
  assumes "reachable a"
  shows "window_inv a \<and> window_inv (fst (add a)) \<and> window_inv (reset a)
    \<and> last_idx (fst (add a)) = last_idx a + 1
    \<and> first_idx (fst (add a)) = (if eff_n_step a = n_step a then first_idx a + 1 else first_idx a)
    \<and> first_idx (reset a) = 0 \<and> last_idx (reset a) = 0
    \<and> 1 \<le> eff_n_step (fst (add a)) \<and> eff_n_step (fst (add a)) \<le> n_step (fst (add a))"
proof -
  obtain n d cfg t where n: "1 \<le> n" and a: "a = after_steps n d cfg t"
    using reachable_after_steps [OF assms] by blast
  have add: "fst (add (after_steps n d cfg t)) = after_steps n d cfg (Suc t)"
    using n by (simp add: add_after_steps)
  have reset: "reset (after_steps n d cfg t) = after_steps n d cfg 0"
    using n by (simp add: reset_after_steps)
  have inv: "window_inv (after_steps n d cfg s)" for s
    using n by (simp add: window_inv_def after_steps_def)
  have "last_idx (after_steps n d cfg (Suc t)) = last_idx (after_steps n d cfg t) + 1"
    by (simp add: after_steps_def)
  moreover have "first_idx (after_steps n d cfg (Suc t)) =
      (if eff_n_step (after_steps n d cfg t) = n_step (after_steps n d cfg t)
       then first_idx (after_steps n d cfg t) + 1 else first_idx (after_steps n d cfg t))"
    using n by (auto simp: after_steps_def eff_n_step_def)
  moreover have "first_idx (after_steps n d cfg 0) = 0" "last_idx (after_steps n d cfg 0) = 0"
    using n by (simp_all add: after_steps_def)
  moreover have "1 \<le> eff_n_step (after_steps n d cfg (Suc t))"
    "eff_n_step (after_steps n d cfg (Suc t)) \<le> n_step (after_steps n d cfg (Suc t))"
    using n by (auto simp: after_steps_def eff_n_step_def)
  ultimately show ?thesis
    unfolding a add reset using inv by simp
qed

theorem window_pointers_invariant_witness:
  "reachable \<lparr>n_step = 2, self_discount = 1, first_idx = 1, last_idx = 3,
              table_net_config = None, episode_steps = 3\<rparr>
   \<and> first_idx (fst (add \<lparr>n_step = 2, self_discount = 1, first_idx = 1, last_idx = 3,
              table_net_config = None, episode_steps = 3\<rparr>)) = 2
   \<and> last_idx (fst (add \<lparr>n_step = 2, self_discount = 1, first_idx = 1, last_idx = 3,
              table_net_config = None, episode_steps = 3\<rparr>)) = 4"
proof -
  let ?start = "\<lparr>n_step = 2, self_discount = 1, first_idx = 0, last_idx = 0,
              table_net_config = None, episode_steps = 0\<rparr>"
  let ?a = "\<lparr>n_step = 2, self_discount = 1, first_idx = 1, last_idx = 3,
              table_net_config = None, episode_steps = 3\<rparr>"
  have "reachable ?start"
  proof (rule reachable_init [where n = 2 and agent_discount = 1 and cfg = None])
    show "(1::int) \<le> 2" by simp
    show "init 2 1 None = Inr ?start" by (simp add: init_def base_init_def)
  qed
  then have "reachable (fst (add (fst (add (fst (add ?start))))))"
    by (intro reachable_add)
  moreover have "fst (add (fst (add (fst (add ?start))))) = ?a"
    by (simp add: add_def add_pointers_def base_add_def writer_append_def write_append_def Let_def)
  ultimately have r: "reachable ?a" by simp
  show ?thesis
    using r window_pointers_invariant [OF r] by (simp add: eff_n_step_def)
qed

text \<open>
  C7. The constructor accepts \<open>n_step = 0\<close> (and any other value below 1): it returns an
  adder and raises nothing, although its docstring announces an error for \<open>n_step < 1\<close>.
\<close>

theorem init_accepts_n_step_below_one:
  "init 0 d cfg =
     Inr \<lparr>n_step = 0, self_discount = d, first_idx = 0, last_idx = 0,
          table_net_config = cfg, episode_steps = 0\<rparr>
   \<and> init (- 1) d cfg =
     Inr \<lparr>n_step = - 1, self_discount = d, first_idx = 0, last_idx = 0,
          table_net_config = cfg, episode_steps = 0\<rparr>"
  by (simp add: init_def base_init_def)


subsection \<open>Routing: which exceptions, which items\<close>

lemma getitem_Inr: "getitem d k = Inr v \<longleftrightarrow> map_of d k = Some v"
  by (simp add: getitem_def split: option.splits)

lemma getitem_Inl: "getitem d k = Inl e \<longleftrightarrow> e = KeyError \<and> map_of d k = None"
  by (auto simp: getitem_def split: option.splits)

lemma config_getitem_Inl:
  "config_getitem cfg table = Inl e \<Longrightarrow> e = KeyError \<or> e = TypeError"
  by (auto simp: config_getitem_def getitem_Inl split: option.splits)

lemma trans_nets_agent_Inl: "trans_nets_agent net_keys agents acc = Inl e \<Longrightarrow> e = KeyError"
  by (induction agents arbitrary: acc) (auto simp: getitem_Inl split: sum.splits)

lemma reindex_Inl:
  "reindex t tna agents a_i req new = Inl e \<Longrightarrow> e = KeyError \<or> e = IndexError"
  by (induction req arbitrary: a_i new)
    (auto simp: getitem_Inl Let_def split: sum.splits if_splits)

lemma reindex_extras:
  "reindex t tna agents a_i req new = Inr r \<Longrightarrow>
     extras r = extras new \<and> next_extras r = next_extras new"
proof (induction req arbitrary: a_i new)
  case Nil
  then show ?case by simp
next
  case (Cons net_key rest)
  from Cons.prems show ?case
    by (auto simp: Let_def split: sum.splits if_splits dest!: Cons.IH)
qed

lemma route_table_Inl:
  "route_table cfg t table priority = Inl e \<Longrightarrow> e = KeyError \<or> e = IndexError \<or> e = TypeError"
  unfolding route_table_def Let_def
  by (auto simp: getitem_Inl split: sum.splits if_splits bool.splits
      dest: trans_nets_agent_Inl config_getitem_Inl reindex_Inl)

lemma route_table_Some_extras:
  "route_table cfg t table priority = Inr (Some (tb, p, r)) \<Longrightarrow>
     extras r = [] \<and> next_extras r = []"
  unfolding route_table_def Let_def
  by (auto simp: empty_transition_def split: sum.splits if_splits bool.splits
      dest!: reindex_extras)

lemma route_tables_Some:
  "route_tables cfg t tps items created = (items', created', Some e) \<Longrightarrow>
     e = KeyError \<or> e = IndexError \<or> e = TypeError"
proof (induction tps arbitrary: items created)
  case Nil
  then show ?case by simp
next
  case (Cons tp tps)
  obtain table priority where tp: "tp = (table, priority)" by (cases tp)
  from Cons.prems show ?case
    unfolding tp
    by (auto split: sum.splits option.splits dest: route_table_Inl Cons.IH)
qed

lemma route_tables_items:
  assumes "route_tables cfg t tps items created = (items', created', err)"
    and "\<forall>it\<in>set items. extras (snd (snd it)) = [] \<and> next_extras (snd (snd it)) = []"
  shows "\<forall>it\<in>set items'. extras (snd (snd it)) = [] \<and> next_extras (snd (snd it)) = []"
  using assms
proof (induction tps arbitrary: items created)
  case Nil
  then show ?case by simp
next
  case (Cons tp tps)
  obtain table priority where tp: "tp = (table, priority)" by (cases tp)
  show ?case
  proof (cases "route_table cfg t table priority")
    case (Inl e)
    with Cons.prems tp show ?thesis by simp
  next
    case (Inr res)
    show ?thesis
    proof (cases res)
      case None
      with Inr Cons.prems tp show ?thesis by (auto dest: Cons.IH)
    next
      case (Some it)
      obtain tb p r where it: "it = (tb, p, r)" by (cases it)
      have "extras r = [] \<and> next_extras r = []"
        using Inr Some it route_table_Some_extras by blast
      then have "\<forall>x\<in>set (items @ [it]). extras (snd (snd x)) = [] \<and> next_extras (snd (snd x)) = []"
        using Cons.prems(2) it by simp
      moreover have "route_tables cfg t tps (items @ [it]) True = (items', created', err)"
        using Cons.prems(1) tp Inr Some by simp
      ultimately show ?thesis by (rule Cons.IH [rotated])
    qed
  qed
qed

lemma write_transition_items:
  "fst (write_transition a t tps) = fst (route_tables (table_net_config a) t tps [] False)"
  by (simp add: write_transition_def split: prod.splits option.splits)

text \<open>
  C9. Every item that \<open>_write\<close> passes to \<open>create_item\<close> carries empty \<open>extras\<close> and empty
  \<open>next_extras\<close>, whatever the extras of the transition read from the buffer.
\<close>

theorem routed_items_have_no_extras:
  "\<forall>it\<in>set (fst (write_transition a t tps)).
     extras (snd (snd it)) = [] \<and> next_extras (snd (snd it)) = []"
proof -
  obtain items created err where
    r: "route_tables (table_net_config a) t tps [] False = (items, created, err)"
    by (cases "route_tables (table_net_config a) t tps [] False") auto
  have "\<forall>it\<in>set items. extras (snd (snd it)) = [] \<and> next_extras (snd (snd it)) = []"
    using route_tables_items [OF r] by simp
  then show ?thesis
    by (simp add: write_transition_items r)
qed

lemmas example_eval =
  write_transition_def example_adder_def example_transition_def shared_key_transition_def
  route_table_def getitem_def falsy_def config_getitem_def setitem_def empty_transition_def Let_def

theorem routed_items_have_no_extras_witness:
  "fst (write_transition (example_adder (Some [(''trainer_0'', [''network_b'', ''network_a''])]))
         example_transition [(''trainer_0'', 1)])
   = [(''trainer_0'', 1,
       \<lparr>observation = [(''agent_0'', 11), (''agent_1'', 10)], extras = [],
        action = [(''agent_0'', 21), (''agent_1'', 20)],
        reward = [(''agent_0'', 2), (''agent_1'', 1)],
        discount = [(''agent_0'', 1 / 4), (''agent_1'', 1 / 2)],
        next_observation = [(''agent_0'', 31), (''agent_1'', 30)], next_extras = []\<rparr>)]"
  using routed_items_have_no_extras
    [of "example_adder (Some [(''trainer_0'', [''network_b'', ''network_a''])])"
        example_transition "[(''trainer_0'', 1)]"]
  by (simp add: example_eval)

lemma route_table_no_config:
  "\<exists>e. route_table None t table priority = Inl e"
  unfolding route_table_def Let_def
  by (auto simp: falsy_def config_getitem_def split: sum.splits)

text \<open>
  C4, as the code has it. With \<open>table_net_config = None\<close> the guard
  \<open>not self._table_net_config\<close> lets every table through, and the loop header then
  subscripts \<open>None\<close>: no item is ever created and \<open>_write\<close> always ends in an exception
  (\<open>TypeError\<close> at the first table; \<open>ValidationError\<close> when there is no table at all).
\<close>

theorem write_without_config_always_raises:
  "table_net_config a = None \<Longrightarrow>
     fst (write_transition a t tps) = [] \<and> snd (write_transition a t tps) \<noteq> None"
proof (cases tps)
  case Nil
  then show "table_net_config a = None \<Longrightarrow> ?thesis" by (simp add: write_transition_def)
next
  case (Cons tp rest)
  obtain table priority where tp: "tp = (table, priority)" by (cases tp)
  obtain e where "route_table None t table priority = Inl e"
    using route_table_no_config by blast
  then show "table_net_config a = None \<Longrightarrow> ?thesis"
    using Cons tp by (simp add: write_transition_def)
qed

theorem write_without_config_always_raises_witness:
  "write_transition (example_adder None) example_transition [(''trainer_0'', 1)]
   = ([], Some TypeError)"
  using write_without_config_always_raises
    [of "example_adder None" example_transition "[(''trainer_0'', 1)]"]
  by (simp add: example_eval)

lemma trans_nets_agent_map_of:
  "trans_nets_agent net_keys agents acc = Inr tna \<Longrightarrow>
     map_of tna k =
       (if \<exists>a\<in>set agents. map_of net_keys a = Some k
        then Some (last (filter (\<lambda>a. map_of net_keys a = Some k) agents))
        else map_of acc k)"
proof (induction agents arbitrary: acc)
  case Nil
  then show ?case by simp
next
  case (Cons a agents)
  from Cons.prems obtain k0 where k0: "map_of net_keys a = Some k0"
    and rest: "trans_nets_agent net_keys agents (setitem k0 a acc) = Inr tna"
    by (auto simp: getitem_Inr split: sum.splits)
  have acc': "map_of (setitem k0 a acc) k = (if k = k0 then Some a else map_of acc k)"
    by (simp add: setitem_def update_conv')
  show ?case
    using Cons.IH [OF rest] k0 acc'
    by (auto simp: filter_empty_conv)
qed

lemma trans_nets_agent_range:
  assumes "trans_nets_agent net_keys agents [] = Inr tna" "map_of tna k = Some cur"
  shows "cur \<in> set agents \<and> map_of net_keys cur = Some k"
proof -
  let ?S = "filter (\<lambda>a. map_of net_keys a = Some k) agents"
  have ex: "\<exists>a\<in>set agents. map_of net_keys a = Some k"
    using trans_nets_agent_map_of [OF assms(1), of k] assms(2) by (auto split: if_splits)
  then have ne: "?S \<noteq> []" by (simp add: filter_empty_conv)
  have "cur = last ?S"
    using trans_nets_agent_map_of [OF assms(1), of k] assms(2) ex by simp
  then have "cur \<in> set ?S" using ne last_in_set by metis
  then show ?thesis by simp
qed

lemma setitem_fresh: "k \<notin> fst ` set d \<Longrightarrow> setitem k v d = d @ [(k, v)]"
  by (induction d) (auto simp: setitem_def)

lemma nth_notin_take:
  "distinct xs \<Longrightarrow> i < length xs \<Longrightarrow> xs ! i \<notin> set (take i xs)"
  by (auto simp: in_set_conv_nth nth_eq_iff_index_eq)

lemma slot_data_Cons:
  "slot_data d tna (w # ws) (k # ks) =
     (w, the (map_of d (the (map_of tna k)))) # slot_data d tna ws ks"
  by (simp add: slot_data_def)

lemma slot_data_Nil [simp]: "slot_data d tna ws [] = []"
  by (simp add: slot_data_def)

lemma reindex_closed:
  assumes "distinct agents" "a_i + length req \<le> length agents"
    and "slots_within new (set (take a_i agents))"
    and "\<forall>k\<in>set req. \<exists>cur. map_of tna k = Some cur \<and> recorded t cur"
  shows "reindex t tna agents a_i req new = Inr (append_slots new t tna (drop a_i agents) req)"
  using assms
proof (induction req arbitrary: a_i new)
  case Nil
  then show ?case by (simp add: append_slots_def)
next
  case (Cons k rest)
  from Cons.prems(4) obtain cur where cur: "map_of tna k = Some cur" and rec: "recorded t cur"
    by auto
  from rec obtain ob ac rw di nob where data:
    "map_of (observation t) cur = Some ob" "map_of (action t) cur = Some ac"
    "map_of (reward t) cur = Some rw" "map_of (discount t) cur = Some di"
    "map_of (next_observation t) cur = Some nob"
    by (auto simp: recorded_def)
  have lt: "a_i < length agents" using Cons.prems(2) by simp
  let ?w = "agents ! a_i"
  have fresh: "?w \<notin> set (take a_i agents)"
    using nth_notin_take [OF Cons.prems(1) lt] .
  let ?new = "new\<lparr>observation := observation new @ [(?w, ob)],
                action := action new @ [(?w, ac)],
                reward := reward new @ [(?w, rw)],
                discount := discount new @ [(?w, di)],
                next_observation := next_observation new @ [(?w, nob)]\<rparr>"
  have sets: "setitem ?w ob (observation new) = observation new @ [(?w, ob)]"
    "setitem ?w ac (action new) = action new @ [(?w, ac)]"
    "setitem ?w rw (reward new) = reward new @ [(?w, rw)]"
    "setitem ?w di (discount new) = discount new @ [(?w, di)]"
    "setitem ?w nob (next_observation new) = next_observation new @ [(?w, nob)]"
    using Cons.prems(3) fresh by (auto simp: slots_within_def intro!: setitem_fresh)
  have step: "reindex t tna agents a_i (k # rest) new = reindex t tna agents (Suc a_i) rest ?new"
    using cur data lt sets by (simp add: getitem_def Let_def)
  have within: "slots_within ?new (set (take (Suc a_i) agents))"
    using Cons.prems(3) lt by (auto simp: slots_within_def take_Suc_conv_app_nth)
  have "reindex t tna agents (Suc a_i) rest ?new =
      Inr (append_slots ?new t tna (drop (Suc a_i) agents) rest)"
    using Cons.prems within by (intro Cons.IH) auto
  moreover have "append_slots ?new t tna (drop (Suc a_i) agents) rest =
      append_slots new t tna (drop a_i agents) (k # rest)"
    using cur data lt
    by (simp add: append_slots_def Cons_nth_drop_Suc [symmetric] slot_data_Cons)
  ultimately show ?case using step by simp
qed

lemma reindex_routed:
  assumes "distinct agents" "length req \<le> length agents"
    and "\<forall>k\<in>set req. \<exists>cur. map_of tna k = Some cur \<and> recorded t cur"
  shows "reindex t tna agents 0 req empty_transition = Inr (routed t tna agents req)"
proof -
  have "reindex t tna agents 0 req empty_transition =
      Inr (append_slots empty_transition t tna (drop 0 agents) req)"
    using assms by (intro reindex_closed) (simp_all add: slots_within_def empty_transition_def)
  then show ?thesis
    by (simp add: append_slots_def routed_def empty_transition_def)
qed

lemma in_keys_iff: "k \<in> fst ` set d \<longleftrightarrow> map_of d k \<noteq> None"
  by (simp add: map_of_eq_None_iff)

lemma route_table_None:
  assumes "map_of (extras t) ''network_keys'' = Some net_keys"
    and "trans_nets_agent net_keys (sort (map fst (action t))) [] = Inr tna"
    and "route_table cfg t table priority = Inr None"
  shows "\<exists>c. cfg = Some c \<and> \<not> table_satisfied c tna table"
  using assms unfolding route_table_def Let_def
  by (auto simp: getitem_def falsy_def config_getitem_def table_satisfied_def
      split: sum.splits if_splits bool.splits option.splits)

lemma route_table_unsatisfied:
  assumes "map_of (extras t) ''network_keys'' = Some net_keys"
    and "trans_nets_agent net_keys (sort (map fst (action t))) [] = Inr tna"
    and "map_of c table \<noteq> None" "\<not> table_satisfied c tna table"
  shows "route_table (Some c) t table priority = Inr None"
proof -
  have "c \<noteq> []" using assms(3) by auto
  then show ?thesis
    using assms unfolding route_table_def Let_def
    by (auto simp: getitem_def falsy_def config_getitem_def table_satisfied_def
        split: option.splits)
qed

lemma route_table_satisfied:
  assumes "map_of (extras t) ''network_keys'' = Some net_keys"
    and "trans_nets_agent net_keys (sort (map fst (action t))) [] = Inr tna"
    and "map_of c table = Some req" "table_satisfied c tna table"
    and "distinct (map fst (action t))" "length req \<le> length (action t)"
    and "\<forall>ag\<in>fst ` set (action t). recorded t ag"
  shows "route_table (Some c) t table priority =
           Inr (Some (table, priority, routed t tna (sort (map fst (action t))) req))"
proof -
  let ?agents = "sort (map fst (action t))"
  have c: "c \<noteq> []" using assms(3) by auto
  have all: "list_all (\<lambda>elem. elem \<in> fst ` set tna) req"
    using assms(3,4) by (simp add: table_satisfied_def)
  have "\<forall>k\<in>set req. \<exists>cur. map_of tna k = Some cur \<and> recorded t cur"
  proof
    fix k assume "k \<in> set req"
    then have "k \<in> fst ` set tna" using all by (simp add: list_all_iff)
    then obtain cur where cur: "map_of tna k = Some cur"
      by (auto simp: in_keys_iff)
    then have "cur \<in> set ?agents"
      using trans_nets_agent_range [OF assms(2)] by blast
    then have "recorded t cur" using assms(7) by auto
    with cur show "\<exists>cur. map_of tna k = Some cur \<and> recorded t cur" by blast
  qed
  then have "reindex t tna ?agents 0 req empty_transition = Inr (routed t tna ?agents req)"
    using assms(5,6) by (intro reindex_routed) simp_all
  then show ?thesis
    using assms(1,2,3) c all unfolding route_table_def Let_def
    by (simp add: getitem_def falsy_def config_getitem_def)
qed

lemma route_tables_created:
  "route_tables cfg t tps items True = (items', created', None) \<Longrightarrow> created'"
proof (induction tps arbitrary: items)
  case Nil
  then show ?case by simp
next
  case (Cons tp tps)
  obtain table priority where tp: "tp = (table, priority)" by (cases tp)
  from Cons.prems show ?case
    unfolding tp by (auto split: sum.splits option.splits dest: Cons.IH)
qed

lemma route_tables_not_created:
  assumes "map_of (extras t) ''network_keys'' = Some net_keys"
    and "trans_nets_agent net_keys (sort (map fst (action t))) [] = Inr tna"
    and "route_tables cfg t tps items created = (items', False, None)"
  shows "\<forall>tb\<in>fst ` set tps. \<exists>c. cfg = Some c \<and> \<not> table_satisfied c tna tb"
  using assms(3)
proof (induction tps arbitrary: items created)
  case Nil
  then show ?case by simp
next
  case (Cons tp tps)
  obtain table priority where tp: "tp = (table, priority)" by (cases tp)
  from Cons.prems have none: "route_table cfg t table priority = Inr None"
    and rest: "route_tables cfg t tps items created = (items', False, None)"
    unfolding tp by (auto split: sum.splits option.splits dest: route_tables_created)
  show ?case
    using route_table_None [OF assms(1,2) none] Cons.IH [OF rest] tp by simp
qed

lemma route_tables_unsatisfied:
  assumes "map_of (extras t) ''network_keys'' = Some net_keys"
    and "trans_nets_agent net_keys (sort (map fst (action t))) [] = Inr tna"
    and "\<forall>tb\<in>fst ` set tps. map_of c tb \<noteq> None \<and> \<not> table_satisfied c tna tb"
  shows "route_tables (Some c) t tps items created = (items, created, None)"
  using assms(3)
proof (induction tps)
  case Nil
  then show ?case by simp
next
  case (Cons tp tps)
  obtain table priority where tp: "tp = (table, priority)" by (cases tp)
  have "route_table (Some c) t table priority = Inr None"
    using Cons.prems tp by (intro route_table_unsatisfied [OF assms(1,2)]) auto
  then show ?case
    using Cons tp by simp
qed

lemma route_tables_closed:
  assumes "map_of (extras t) ''network_keys'' = Some net_keys"
    and "trans_nets_agent net_keys (sort (map fst (action t))) [] = Inr tna"
    and "distinct (map fst (action t))"
    and "\<forall>ag\<in>fst ` set (action t). recorded t ag"
    and "\<forall>tb\<in>fst ` set tps. \<exists>req. map_of c tb = Some req \<and> length req \<le> length (action t)"
  shows "route_tables (Some c) t tps items created =
     (items @ map (\<lambda>tp. (fst tp, snd tp,
                          routed t tna (sort (map fst (action t))) (the (map_of c (fst tp)))))
                (filter (\<lambda>tp. table_satisfied c tna (fst tp)) tps),
      created \<or> (\<exists>tb\<in>fst ` set tps. table_satisfied c tna tb), None)"
  using assms(5)
proof (induction tps arbitrary: items created)
  case Nil
  then show ?case by simp
next
  case (Cons tp tps)
  obtain table priority where tp: "tp = (table, priority)" by (cases tp)
  from Cons.prems obtain req where req: "map_of c table = Some req"
    and len: "length req \<le> length (action t)"
    using tp by auto
  have rest: "\<forall>tb\<in>fst ` set tps. \<exists>req. map_of c tb = Some req \<and> length req \<le> length (action t)"
    using Cons.prems by simp
  show ?case
  proof (cases "table_satisfied c tna table")
    case True
    have "route_table (Some c) t table priority =
        Inr (Some (table, priority, routed t tna (sort (map fst (action t))) req))"
      using route_table_satisfied [OF assms(1,2) req True assms(3) len assms(4)] .
    then show ?thesis
      using Cons.IH [OF rest] tp True req by simp
  next
    case False
    have "route_table (Some c) t table priority = Inr None"
      using route_table_unsatisfied [OF assms(1,2) _ False] req by simp
    then show ?thesis
      using Cons.IH [OF rest] tp False by simp
  qed
qed

lemma validation_error_iff_unsatisfied:
  assumes "map_of (extras t) ''network_keys'' = Some net_keys"
    and "trans_nets_agent net_keys (sort (map fst (action t))) [] = Inr tna"
    and "tps \<noteq> []"
    and "\<forall>c. table_net_config a = Some c \<longrightarrow> (\<forall>tb\<in>fst ` set tps. map_of c tb \<noteq> None)"
  shows "((\<exists>ks. snd (write_transition a t tps) = Some (ValidationError ks)) \<longleftrightarrow>
          (\<exists>c. table_net_config a = Some c \<and> (\<forall>tb\<in>fst ` set tps. \<not> table_satisfied c tna tb)))
    \<and> (\<forall>ks. snd (write_transition a t tps) = Some (ValidationError ks) \<longrightarrow>
          ks = map fst (action t))"
proof (intro conjI)
  obtain items created err where
    r: "route_tables (table_net_config a) t tps [] False = (items, created, err)"
    by (cases "route_tables (table_net_config a) t tps [] False") auto
  have no_ve: "err \<noteq> Some (ValidationError ks)" for ks
    using route_tables_Some [of "table_net_config a" t tps "[]" False items created] r
    by (cases err) auto
  have ve: "snd (write_transition a t tps) = Some (ValidationError ks) \<longleftrightarrow>
      err = None \<and> \<not> created \<and> ks = map fst (action t)" for ks
    using r no_ve [of ks] by (cases err) (auto simp: write_transition_def)
  show "(\<exists>ks. snd (write_transition a t tps) = Some (ValidationError ks)) \<longleftrightarrow>
      (\<exists>c. table_net_config a = Some c \<and> (\<forall>tb\<in>fst ` set tps. \<not> table_satisfied c tna tb))"
  proof
    assume "\<exists>ks. snd (write_transition a t tps) = Some (ValidationError ks)"
    then have "route_tables (table_net_config a) t tps [] False = (items, False, None)"
      using ve r by auto
    then have all: "\<forall>tb\<in>fst ` set tps. \<exists>c. table_net_config a = Some c \<and> \<not> table_satisfied c tna tb"
      by (rule route_tables_not_created [OF assms(1,2)])
    obtain tp where "tp \<in> set tps" using assms(3) by (cases tps) auto
    then obtain c where "table_net_config a = Some c" using all by force
    then show "\<exists>c. table_net_config a = Some c \<and> (\<forall>tb\<in>fst ` set tps. \<not> table_satisfied c tna tb)"
      using all by auto
  next
    assume "\<exists>c. table_net_config a = Some c \<and> (\<forall>tb\<in>fst ` set tps. \<not> table_satisfied c tna tb)"
    then obtain c where c: "table_net_config a = Some c"
      and un: "\<forall>tb\<in>fst ` set tps. \<not> table_satisfied c tna tb" by blast
    have "route_tables (Some c) t tps [] False = ([], False, None)"
      using assms(4) c un by (intro route_tables_unsatisfied [OF assms(1,2)]) auto
    then show "\<exists>ks. snd (write_transition a t tps) = Some (ValidationError ks)"
      using c by (simp add: write_transition_def)
  qed
  show "\<forall>ks. snd (write_transition a t tps) = Some (ValidationError ks) \<longrightarrow>
      ks = map fst (action t)"
    using ve by blast
qed

lemma trans_nets_agent_total:
  "\<forall>ag\<in>set agents. map_of net_keys ag \<noteq> None \<Longrightarrow>
     \<exists>tna. trans_nets_agent net_keys agents acc = Inr tna"
  by (induction agents arbitrary: acc) (auto simp: getitem_def)

lemma lookup_keys:
  assumes "trans_nets_agent net_keys agents [] = Inr tna"
  shows "fst ` set tna = {k. \<exists>ag\<in>set agents. map_of net_keys ag = Some k}"
proof -
  have "k \<in> fst ` set tna \<longleftrightarrow> (\<exists>ag\<in>set agents. map_of net_keys ag = Some k)" for k
    using trans_nets_agent_map_of [OF assms, of k] by (simp add: in_keys_iff)
  then show ?thesis by blast
qed

lemma set_assigned_keys:
  "set (assigned_keys net_keys t) = {k. \<exists>ag\<in>fst ` set (action t). map_of net_keys ag = Some k}"
  by (force simp: assigned_keys_def map_filter_def)

lemma table_satisfied_iff_matched:
  assumes "trans_nets_agent net_keys (sort (map fst (action t))) [] = Inr tna"
  shows "table_satisfied c tna tb \<longleftrightarrow> table_matched c (assigned_keys net_keys t) tb"
proof -
  have "fst ` set tna = set (assigned_keys net_keys t)"
    using lookup_keys [OF assms] by (simp add: set_assigned_keys)
  then show ?thesis
    by (simp add: table_satisfied_def table_matched_def split: option.splits)
qed

text \<open>
  A table whose whole required list is among the assigned keys, and \<open>_write\<close> raises all
  the same: the list names three keys, the transition has two agents, and \<open>agents[2]\<close> is an
  \<open>IndexError\<close>.
\<close>

theorem matched_transition_raises_counterexample:
  "table_matched [(''trainer_0'', [''network_a'', ''network_b'', ''network_a''])]
     (assigned_keys [(''agent_0'', ''network_a''), (''agent_1'', ''network_b'')] example_transition)
     ''trainer_0''
   \<and> write_transition
        (example_adder (Some [(''trainer_0'', [''network_a'', ''network_b'', ''network_a''])]))
        example_transition [(''trainer_0'', 1)]
     = ([], Some IndexError)"
  by (simp add: example_eval table_matched_def assigned_keys_def map_filter_def)

text \<open>
  C3, as the code has it. Let the transition record a network key for every agent, let
  there be at least one destination table, and let every table have an entry in
  \<open>table_net_config\<close> when that is set. Then \<open>_write\<close> raises \<open>ValidationError\<close> exactly when
  \<open>table_net_config\<close> is set and no table finds its whole required key list among the keys
  that \<open>extras['network_keys']\<close> assigns to the agents; the error names the keys of
  \<open>transition.action\<close>. So a matched transition never raises \<open>ValidationError\<close>, and an
  unmatched one always does.
\<close>

theorem validation_error_iff_no_table_matched:
  assumes "map_of (extras t) ''network_keys'' = Some net_keys"
    and "\<forall>ag\<in>fst ` set (action t). map_of net_keys ag \<noteq> None"
    and "tps \<noteq> []"
    and "\<forall>c. table_net_config a = Some c \<longrightarrow> (\<forall>tb\<in>fst ` set tps. map_of c tb \<noteq> None)"
  shows "((\<exists>ks. snd (write_transition a t tps) = Some (ValidationError ks)) \<longleftrightarrow>
          (\<exists>c. table_net_config a = Some c \<and>
               (\<forall>tb\<in>fst ` set tps. \<not> table_matched c (assigned_keys net_keys t) tb)))
    \<and> (\<forall>ks. snd (write_transition a t tps) = Some (ValidationError ks) \<longrightarrow>
          ks = map fst (action t))"
proof -
  have "\<forall>ag\<in>set (sort (map fst (action t))). map_of net_keys ag \<noteq> None"
    using assms(2) by simp
  then obtain tna where tna: "trans_nets_agent net_keys (sort (map fst (action t))) [] = Inr tna"
    using trans_nets_agent_total by blast
  show ?thesis
    using validation_error_iff_unsatisfied [OF assms(1) tna assms(3,4)]
    by (simp add: table_satisfied_iff_matched [OF tna])
qed

theorem validation_error_iff_no_table_matched_witness:
  "snd (write_transition (example_adder (Some [(''trainer_0'', [''network_a'', ''network_b''])]))
         shared_key_transition [(''trainer_0'', 1)])
     = Some (ValidationError [''agent_0'', ''agent_1''])
   \<and> \<not> table_matched [(''trainer_0'', [''network_a'', ''network_b''])]
         (assigned_keys [(''agent_0'', ''network_a''), (''agent_1'', ''network_a'')]
            shared_key_transition) ''trainer_0''"
  using validation_error_iff_no_table_matched
    [of shared_key_transition "[(''agent_0'', ''network_a''), (''agent_1'', ''network_a'')]"
        "[(''trainer_0'', 1)]"
        "example_adder (Some [(''trainer_0'', [''network_a'', ''network_b''])])"]
  by (simp add: example_eval table_matched_def assigned_keys_def map_filter_def)

lemma slot_data_nth:
  "i < length req \<Longrightarrow> i < length agents \<Longrightarrow>
     slot_data d tna agents req ! i = (agents ! i, the (map_of d (the (map_of tna (req ! i)))))"
  by (simp add: slot_data_def)

lemma write_transition_closed:
  assumes "table_net_config a = Some c"
    and "map_of (extras t) ''network_keys'' = Some net_keys"
    and "trans_nets_agent net_keys (sort (map fst (action t))) [] = Inr tna"
    and "distinct (map fst (action t))"
    and "\<forall>ag\<in>fst ` set (action t). recorded t ag"
    and "\<forall>tb\<in>fst ` set tps. \<exists>req. map_of c tb = Some req \<and> length req \<le> length (action t)"
  shows "fst (write_transition a t tps) =
     map (\<lambda>tp. (fst tp, snd tp,
                 routed t tna (sort (map fst (action t))) (the (map_of c (fst tp)))))
       (filter (\<lambda>tp. table_satisfied c tna (fst tp)) tps)"
  using route_tables_closed [OF assms(2-6), of "[]" False] assms(1)
  by (simp add: write_transition_items)

lemma routed_item_submitted:
  assumes "table_net_config a = Some c"
    and "map_of (extras t) ''network_keys'' = Some net_keys"
    and "trans_nets_agent net_keys (sort (map fst (action t))) [] = Inr tna"
    and "distinct (map fst (action t))"
    and "\<forall>ag\<in>fst ` set (action t). recorded t ag"
    and "\<forall>tb\<in>fst ` set tps. \<exists>req. map_of c tb = Some req \<and> length req \<le> length (action t)"
    and "(tb, p) \<in> set tps" "map_of c tb = Some req" "table_satisfied c tna tb"
  shows "(tb, p, routed t tna (sort (map fst (action t))) req) \<in> set (fst (write_transition a t tps))"
proof -
  let ?agents = "sort (map fst (action t))"
  have "(tb, p) \<in> set (filter (\<lambda>tp. table_satisfied c tna (fst tp)) tps)"
    using assms(7,9) by simp
  then have "(tb, p, routed t tna ?agents (the (map_of c tb))) \<in> set (fst (write_transition a t tps))"
    unfolding write_transition_closed [OF assms(1-6)] set_map by force
  then show ?thesis
    using assms(8) by simp
qed

lemma routed_slot:
  assumes "trans_nets_agent net_keys (sort (map fst (action t))) [] = Inr tna"
    and "\<forall>ag\<in>fst ` set (action t). recorded t ag"
    and "list_all (\<lambda>elem. elem \<in> fst ` set tna) req"
    and "length req \<le> length (action t)" "i < length req"
  shows "\<exists>cur ob ac rw di nob.
          map_of tna (req ! i) = Some cur \<and> map_of net_keys cur = Some (req ! i) \<and>
          map_of (observation t) cur = Some ob \<and> map_of (action t) cur = Some ac \<and>
          map_of (reward t) cur = Some rw \<and> map_of (discount t) cur = Some di \<and>
          map_of (next_observation t) cur = Some nob \<and>
          observation (routed t tna (sort (map fst (action t))) req) ! i
            = (sort (map fst (action t)) ! i, ob) \<and>
          action (routed t tna (sort (map fst (action t))) req) ! i
            = (sort (map fst (action t)) ! i, ac) \<and>
          reward (routed t tna (sort (map fst (action t))) req) ! i
            = (sort (map fst (action t)) ! i, rw) \<and>
          discount (routed t tna (sort (map fst (action t))) req) ! i
            = (sort (map fst (action t)) ! i, di) \<and>
          next_observation (routed t tna (sort (map fst (action t))) req) ! i
            = (sort (map fst (action t)) ! i, nob)"
proof -
  let ?agents = "sort (map fst (action t))"
  have i: "i < length req" by (rule assms(5))
  have "req ! i \<in> fst ` set tna"
    using assms(3) i by (simp add: list_all_length)
  then obtain cur where cur: "map_of tna (req ! i) = Some cur"
    by (auto simp: in_keys_iff)
  have r: "cur \<in> set ?agents" "map_of net_keys cur = Some (req ! i)"
    using trans_nets_agent_range [OF assms(1) cur] by simp_all
  then have "recorded t cur" using assms(2) by auto
  then obtain ob ac rw di nob where data:
    "map_of (observation t) cur = Some ob" "map_of (action t) cur = Some ac"
    "map_of (reward t) cur = Some rw" "map_of (discount t) cur = Some di"
    "map_of (next_observation t) cur = Some nob"
    by (auto simp: recorded_def)
  have il: "i < length ?agents" using i assms(4) by simp
  show ?thesis
  proof (intro exI conjI)
    show "map_of tna (req ! i) = Some cur" by (rule cur)
    show "map_of net_keys cur = Some (req ! i)" by (rule r(2))
    show "map_of (observation t) cur = Some ob" by (rule data(1))
    show "map_of (action t) cur = Some ac" by (rule data(2))
    show "map_of (reward t) cur = Some rw" by (rule data(3))
    show "map_of (discount t) cur = Some di" by (rule data(4))
    show "map_of (next_observation t) cur = Some nob" by (rule data(5))
    show "observation (routed t tna ?agents req) ! i = (?agents ! i, ob)"
      using cur data(1) by (simp add: routed_def slot_data_nth [OF i il])
    show "action (routed t tna ?agents req) ! i = (?agents ! i, ac)"
      using cur data(2) by (simp add: routed_def slot_data_nth [OF i il])
    show "reward (routed t tna ?agents req) ! i = (?agents ! i, rw)"
      using cur data(3) by (simp add: routed_def slot_data_nth [OF i il])
    show "discount (routed t tna ?agents req) ! i = (?agents ! i, di)"
      using cur data(4) by (simp add: routed_def slot_data_nth [OF i il])
    show "next_observation (routed t tna ?agents req) ! i = (?agents ! i, nob)"
      using cur data(5) by (simp add: routed_def slot_data_nth [OF i il])
  qed
qed

lemma sorted_le_last: "sorted xs \<Longrightarrow> x \<in> set xs \<Longrightarrow> x \<le> last xs"
  by (induction xs) auto

text \<open>
  C6. Let \<open>table_net_config\<close> be set, the transition record a network key and the data of
  every agent, and no required list be longer than the list of agents. For every table
  whose required list is satisfied, the item submitted to it is the reindexed transition:
  slot \<open>i\<close>, the \<open>i\<close>-th agent in sorted order, holds the observation, action, reward,
  discount and next observation of the agent that the lookup built from
  \<open>extras['network_keys']\<close> gives for the \<open>i\<close>-th required key, and that agent was assigned
  this key.
\<close>

theorem satisfied_table_gets_reindexed_transition:
  assumes "table_net_config a = Some c"
    and "map_of (extras t) ''network_keys'' = Some net_keys"
    and "trans_nets_agent net_keys (sort (map fst (action t))) [] = Inr tna"
    and "distinct (map fst (action t))"
    and "\<forall>ag\<in>fst ` set (action t). recorded t ag"
    and "\<forall>tb\<in>fst ` set tps. \<exists>req. map_of c tb = Some req \<and> length req \<le> length (action t)"
    and "(tb, p) \<in> set tps" "map_of c tb = Some req" "table_satisfied c tna tb"
  shows "(tb, p, routed t tna (sort (map fst (action t))) req) \<in> set (fst (write_transition a t tps))
    \<and> (\<forall>i<length req. \<exists>cur ob ac rw di nob.
          map_of tna (req ! i) = Some cur \<and> map_of net_keys cur = Some (req ! i) \<and>
          map_of (observation t) cur = Some ob \<and> map_of (action t) cur = Some ac \<and>
          map_of (reward t) cur = Some rw \<and> map_of (discount t) cur = Some di \<and>
          map_of (next_observation t) cur = Some nob \<and>
          observation (routed t tna (sort (map fst (action t))) req) ! i
            = (sort (map fst (action t)) ! i, ob) \<and>
          action (routed t tna (sort (map fst (action t))) req) ! i
            = (sort (map fst (action t)) ! i, ac) \<and>
          reward (routed t tna (sort (map fst (action t))) req) ! i
            = (sort (map fst (action t)) ! i, rw) \<and>
          discount (routed t tna (sort (map fst (action t))) req) ! i
            = (sort (map fst (action t)) ! i, di) \<and>
          next_observation (routed t tna (sort (map fst (action t))) req) ! i
            = (sort (map fst (action t)) ! i, nob))"
proof (intro conjI allI impI)
  show "(tb, p, routed t tna (sort (map fst (action t))) req) \<in> set (fst (write_transition a t tps))"
    by (rule routed_item_submitted [OF assms])
next
  fix i assume i: "i < length req"
  have len: "length req \<le> length (action t)"
    using assms(6,7,8) by force
  have all: "list_all (\<lambda>elem. elem \<in> fst ` set tna) req"
    using assms(8,9) by (simp add: table_satisfied_def)
  show "\<exists>cur ob ac rw di nob.
          map_of tna (req ! i) = Some cur \<and> map_of net_keys cur = Some (req ! i) \<and>
          map_of (observation t) cur = Some ob \<and> map_of (action t) cur = Some ac \<and>
          map_of (reward t) cur = Some rw \<and> map_of (discount t) cur = Some di \<and>
          map_of (next_observation t) cur = Some nob \<and>
          observation (routed t tna (sort (map fst (action t))) req) ! i
            = (sort (map fst (action t)) ! i, ob) \<and>
          action (routed t tna (sort (map fst (action t))) req) ! i
            = (sort (map fst (action t)) ! i, ac) \<and>
          reward (routed t tna (sort (map fst (action t))) req) ! i
            = (sort (map fst (action t)) ! i, rw) \<and>
          discount (routed t tna (sort (map fst (action t))) req) ! i
            = (sort (map fst (action t)) ! i, di) \<and>
          next_observation (routed t tna (sort (map fst (action t))) req) ! i
            = (sort (map fst (action t)) ! i, nob)"
    by (rule routed_slot [OF assms(3,5) all len i])
qed

theorem satisfied_table_gets_reindexed_transition_witness:
  "(''trainer_0'', 1,
      \<lparr>observation = [(''agent_0'', 11), (''agent_1'', 10)], extras = [],
       action = [(''agent_0'', 21), (''agent_1'', 20)],
       reward = [(''agent_0'', 2), (''agent_1'', 1)],
       discount = [(''agent_0'', 1 / 4), (''agent_1'', 1 / 2)],
       next_observation = [(''agent_0'', 31), (''agent_1'', 30)], next_extras = []\<rparr>)
     \<in> set (fst (write_transition
                 (example_adder (Some [(''trainer_0'', [''network_b'', ''network_a''])]))
                 example_transition [(''trainer_0'', 1)]))"
  using satisfied_table_gets_reindexed_transition
    [of "example_adder (Some [(''trainer_0'', [''network_b'', ''network_a''])])"
        "[(''trainer_0'', [''network_b'', ''network_a''])]" example_transition
        "[(''agent_0'', ''network_a''), (''agent_1'', ''network_b'')]"
        "[(''network_a'', ''agent_0''), (''network_b'', ''agent_1'')]"
        "[(''trainer_0'', 1)]" "''trainer_0''" 1 "[''network_b'', ''network_a'']"]
  by (simp add: example_eval table_satisfied_def recorded_def routed_def slot_data_def)

text \<open>
  C10. Under the conditions of C6, let \<open>k\<close> be a network key that some agent is assigned.
  The lookup built by \<open>_write\<close> keeps for \<open>k\<close> the last, in sorted agent order, of the
  agents assigned \<open>k\<close>; no key leads to any other agent assigned \<open>k\<close>, so their data is
  never read; and every slot whose required key is \<open>k\<close> holds the data of that one agent.
\<close>

theorem shared_network_key_keeps_last_agent:
  assumes "table_net_config a = Some c"
    and "map_of (extras t) ''network_keys'' = Some net_keys"
    and "trans_nets_agent net_keys (sort (map fst (action t))) [] = Inr tna"
    and "distinct (map fst (action t))"
    and "\<forall>ag\<in>fst ` set (action t). recorded t ag"
    and "\<forall>tb\<in>fst ` set tps. \<exists>req. map_of c tb = Some req \<and> length req \<le> length (action t)"
    and "(tb, p) \<in> set tps" "map_of c tb = Some req" "table_satisfied c tna tb"
    and "ag \<in> fst ` set (action t)" "map_of net_keys ag = Some k"
    and "kept = last (filter (\<lambda>x. map_of net_keys x = Some k) (sort (map fst (action t))))"
  shows "map_of tna k = Some kept
    \<and> (\<forall>x\<in>fst ` set (action t). map_of net_keys x = Some k \<longrightarrow> x \<le> kept)
    \<and> (\<forall>x\<in>fst ` set (action t). map_of net_keys x = Some k \<longrightarrow> x \<noteq> kept \<longrightarrow>
          (\<forall>k'. map_of tna k' \<noteq> Some x))
    \<and> (tb, p, routed t tna (sort (map fst (action t))) req) \<in> set (fst (write_transition a t tps))
    \<and> (\<forall>i<length req. req ! i = k \<longrightarrow>
          map_of (observation t) kept
            = Some (snd (observation (routed t tna (sort (map fst (action t))) req) ! i)) \<and>
          map_of (action t) kept
            = Some (snd (action (routed t tna (sort (map fst (action t))) req) ! i)) \<and>
          map_of (reward t) kept
            = Some (snd (reward (routed t tna (sort (map fst (action t))) req) ! i)) \<and>
          map_of (discount t) kept
            = Some (snd (discount (routed t tna (sort (map fst (action t))) req) ! i)) \<and>
          map_of (next_observation t) kept
            = Some (snd (next_observation (routed t tna (sort (map fst (action t))) req) ! i)))"
proof -
  let ?agents = "sort (map fst (action t))"
  let ?S = "filter (\<lambda>x. map_of net_keys x = Some k) ?agents"
  have ex: "\<exists>x\<in>set ?agents. map_of net_keys x = Some k"
    using assms(10,11) by auto
  have kept: "map_of tna k = Some kept"
    using trans_nets_agent_map_of [OF assms(3), of k] ex assms(12) by simp
  have sorted: "sorted ?S"
    using sorted_filter [of "\<lambda>x. x" ?agents] by simp
  have le: "\<forall>x\<in>fst ` set (action t). map_of net_keys x = Some k \<longrightarrow> x \<le> kept"
  proof (intro ballI impI)
    fix x assume "x \<in> fst ` set (action t)" "map_of net_keys x = Some k"
    then have "x \<in> set ?S" by auto
    then show "x \<le> kept" unfolding assms(12) by (rule sorted_le_last [OF sorted])
  qed
  have others: "\<forall>x\<in>fst ` set (action t). map_of net_keys x = Some k \<longrightarrow> x \<noteq> kept \<longrightarrow>
          (\<forall>k'. map_of tna k' \<noteq> Some x)"
  proof (intro ballI impI allI notI)
    fix x k' assume x: "map_of net_keys x = Some k" "x \<noteq> kept" and k': "map_of tna k' = Some x"
    have "map_of net_keys x = Some k'"
      using trans_nets_agent_range [OF assms(3) k'] by simp
    then have "k' = k" using x(1) by simp
    then show False using k' kept x(2) by simp
  qed
  have len: "length req \<le> length (action t)"
    using assms(6,7,8) by force
  have all: "list_all (\<lambda>elem. elem \<in> fst ` set tna) req"
    using assms(8,9) by (simp add: table_satisfied_def)
  have slots: "\<forall>i<length req. req ! i = k \<longrightarrow>
          map_of (observation t) kept
            = Some (snd (observation (routed t tna ?agents req) ! i)) \<and>
          map_of (action t) kept
            = Some (snd (action (routed t tna ?agents req) ! i)) \<and>
          map_of (reward t) kept
            = Some (snd (reward (routed t tna ?agents req) ! i)) \<and>
          map_of (discount t) kept
            = Some (snd (discount (routed t tna ?agents req) ! i)) \<and>
          map_of (next_observation t) kept
            = Some (snd (next_observation (routed t tna ?agents req) ! i))"
  proof (intro allI impI)
    fix i assume i: "i < length req" and k: "req ! i = k"
    from routed_slot [OF assms(3,5) all len i] obtain cur ob ac rw di nob where
      "map_of tna (req ! i) = Some cur"
      "map_of (observation t) cur = Some ob" "map_of (action t) cur = Some ac"
      "map_of (reward t) cur = Some rw" "map_of (discount t) cur = Some di"
      "map_of (next_observation t) cur = Some nob"
      "observation (routed t tna ?agents req) ! i = (?agents ! i, ob)"
      "action (routed t tna ?agents req) ! i = (?agents ! i, ac)"
      "reward (routed t tna ?agents req) ! i = (?agents ! i, rw)"
      "discount (routed t tna ?agents req) ! i = (?agents ! i, di)"
      "next_observation (routed t tna ?agents req) ! i = (?agents ! i, nob)"
      by blast
    then show "map_of (observation t) kept
            = Some (snd (observation (routed t tna ?agents req) ! i)) \<and>
          map_of (action t) kept
            = Some (snd (action (routed t tna ?agents req) ! i)) \<and>
          map_of (reward t) kept
            = Some (snd (reward (routed t tna ?agents req) ! i)) \<and>
          map_of (discount t) kept
            = Some (snd (discount (routed t tna ?agents req) ! i)) \<and>
          map_of (next_observation t) kept
            = Some (snd (next_observation (routed t tna ?agents req) ! i))"
      using kept k by simp
  qed
  show ?thesis
    using kept le others routed_item_submitted [OF assms(1-9)] slots by blast
qed

theorem shared_network_key_keeps_last_agent_witness:
  "map_of [(''network_a'', ''agent_1'')] ''network_a'' = Some ''agent_1''
   \<and> (''trainer_0'', 1,
      \<lparr>observation = [(''agent_0'', 11), (''agent_1'', 11)], extras = [],
       action = [(''agent_0'', 21), (''agent_1'', 21)],
       reward = [(''agent_0'', 2), (''agent_1'', 2)],
       discount = [(''agent_0'', 1 / 4), (''agent_1'', 1 / 4)],
       next_observation = [(''agent_0'', 31), (''agent_1'', 31)], next_extras = []\<rparr>)
     \<in> set (fst (write_transition
                 (example_adder (Some [(''trainer_0'', [''network_a'', ''network_a''])]))
                 shared_key_transition [(''trainer_0'', 1)]))"
  using shared_network_key_keeps_last_agent
    [of "example_adder (Some [(''trainer_0'', [''network_a'', ''network_a''])])"
        "[(''trainer_0'', [''network_a'', ''network_a''])]" shared_key_transition
        "[(''agent_0'', ''network_a''), (''agent_1'', ''network_a'')]"
        "[(''network_a'', ''agent_1'')]"
        "[(''trainer_0'', 1)]" "''trainer_0''" 1 "[''network_a'', ''network_a'']"
        "''agent_0''" "''network_a''" "''agent_1''"]
  by (simp add: example_eval table_satisfied_def recorded_def routed_def slot_data_def)

subsection \<open>The transitions of an episode\<close>

lemma write_once_ok:
  assumes "snd (write_transition (write_append a) (formed (write_append a)) tps) = None"
  shows "write_once formed tps a =
     Inr (write_append a, write_size (write_append a),
          fst (write_transition (write_append a) (formed (write_append a)) tps))"
  using assms
  by (cases "write_transition (write_append a) (formed (write_append a)) tps")
    (simp add: write_once_def Let_def)

lemma add_write_after_steps:
  assumes "0 \<le> n"
    and "\<forall>a. table_net_config a = cfg \<longrightarrow> snd (write_transition a (formed a) tps) = None"
  shows "\<exists>items. add_write formed tps (after_steps n d cfg t) =
     Inr (after_steps n d cfg (Suc t), min (int (Suc t)) n, items)"
proof -
  let ?b = "writer_append False (add_pointers (after_steps n d cfg t))"
  have b: "write_append ?b = after_steps n d cfg (Suc t)"
    using assms(1)
    by (auto simp: add_pointers_def writer_append_def write_append_def after_steps_def Let_def)
  have "table_net_config (after_steps n d cfg (Suc t)) = cfg"
    by (simp add: after_steps_def)
  then have "snd (write_transition (write_append ?b) (formed (write_append ?b)) tps) = None"
    using assms(2) b by simp
  from write_once_ok [where formed = formed and tps = tps and a = ?b, OF this]
  have "write_once formed tps ?b =
     Inr (after_steps n d cfg (Suc t), write_size (after_steps n d cfg (Suc t)),
          fst (write_transition (after_steps n d cfg (Suc t))
                 (formed (after_steps n d cfg (Suc t))) tps))"
    using b by simp
  moreover have "write_size (after_steps n d cfg (Suc t)) = min (int (Suc t)) n"
    using assms(1) by (auto simp: write_size_def eff_n_step_def after_steps_def)
  ultimately show ?thesis
    by (simp add: add_write_def base_add_write_def)
qed

lemma adds_after_steps:
  assumes "0 \<le> n"
    and "\<forall>a. table_net_config a = cfg \<longrightarrow> snd (write_transition a (formed a) tps) = None"
  shows "\<exists>res. adds formed tps m (after_steps n d cfg t) = Inr (after_steps n d cfg (t + m), res)
      \<and> map fst res = map (\<lambda>j. min (int j) n) [Suc t ..< Suc (t + m)]"
proof (induction m arbitrary: t)
  case 0
  then show ?case by simp
next
  case (Suc m)
  obtain items where w: "add_write formed tps (after_steps n d cfg t) =
     Inr (after_steps n d cfg (Suc t), min (int (Suc t)) n, items)"
    using add_write_after_steps [OF assms] by blast
  obtain res where r: "adds formed tps m (after_steps n d cfg (Suc t)) =
      Inr (after_steps n d cfg (Suc t + m), res)"
    and sizes: "map fst res = map (\<lambda>j. min (int j) n) [Suc (Suc t) ..< Suc (Suc t + m)]"
    using Suc.IH [of "Suc t"] by blast
  have upt: "[Suc t ..< Suc (t + Suc m)] = Suc t # [Suc (Suc t) ..< Suc (Suc t + m)]"
    by (simp add: upt_conv_Cons)
  have "adds formed tps (Suc m) (after_steps n d cfg t) =
      Inr (after_steps n d cfg (t + Suc m), (min (int (Suc t)) n, items) # res)"
    using w r by simp
  moreover have "map fst ((min (int (Suc t)) n, items) # res) =
      map (\<lambda>j. min (int j) n) [Suc t ..< Suc (t + Suc m)]"
    unfolding upt using sizes by simp
  ultimately show ?case by blast
qed

lemma write_last_loop_sizes:
  assumes "\<forall>b. table_net_config b = table_net_config a \<longrightarrow>
      snd (write_transition b (formed b) tps) = None"
  shows "\<exists>a' res. write_last_loop formed tps a = Inr (a', res)
      \<and> map fst res = rev (map int [1 ..< Suc (nat (last_idx a - first_idx a))])"
  using assms
proof (induction "nat (last_idx a - first_idx a)" arbitrary: a)
  case 0
  then have "\<not> first_idx a < last_idx a" by simp
  then have "write_last_loop formed tps a = Inr (a, [])"
    by (subst write_last_loop.simps) simp
  then show ?case using 0 by simp
next
  case (Suc k)
  then have lt: "first_idx a < last_idx a" by simp
  let ?a1 = "write_append a"
  let ?a2 = "?a1\<lparr>first_idx := first_idx ?a1 + 1\<rparr>"
  have idx: "last_idx ?a1 = last_idx a" "first_idx ?a1 = first_idx a"
    "table_net_config ?a1 = table_net_config a"
    by (simp_all add: write_append_def writer_append_def)
  have "snd (write_transition ?a1 (formed ?a1) tps) = None"
    using Suc.prems idx(3) by blast
  from write_once_ok [where formed = formed and tps = tps and a = a, OF this]
  have w: "write_once formed tps a =
      Inr (?a1, write_size ?a1, fst (write_transition ?a1 (formed ?a1) tps))" .
  have size: "write_size ?a1 = int (Suc k)"
    using Suc.hyps(2) lt idx by (simp add: write_size_def eff_n_step_def)
  have k: "k = nat (last_idx ?a2 - first_idx ?a2)"
    using Suc.hyps(2) idx by simp
  have cfg: "\<forall>b. table_net_config b = table_net_config ?a2 \<longrightarrow>
      snd (write_transition b (formed b) tps) = None"
    using Suc.prems idx(3) by simp
  obtain a' res where r: "write_last_loop formed tps ?a2 = Inr (a', res)"
    and sizes: "map fst res = rev (map int [1 ..< Suc (nat (last_idx ?a2 - first_idx ?a2))])"
    using Suc.hyps(1) [OF k cfg] by blast
  have "write_last_loop formed tps a =
      Inr (a', (write_size ?a1, fst (write_transition ?a1 (formed ?a1) tps)) # res)"
    using lt w r by (subst write_last_loop.simps) simp
  moreover have "map fst ((write_size ?a1, fst (write_transition ?a1 (formed ?a1) tps)) # res) =
      rev (map int [1 ..< Suc (nat (last_idx a - first_idx a))])"
    using sizes size k Suc.hyps(2) [symmetric] by simp
  ultimately show ?case by blast
qed

lemma full_prefix_sizes:
  assumes "1 \<le> N" "N \<le> T"
  shows "map (\<lambda>j. min (int j) (int N)) [Suc 0 ..< Suc T] =
         map int [1 ..< N] @ replicate (T - N + 1) (int N)"
proof -
  have "[1 ..< N + (Suc T - N)] = [1 ..< N] @ [N ..< N + (Suc T - N)]"
    using assms by (intro upt_add_eq_append) simp
  then have split: "[Suc 0 ..< Suc T] = [1 ..< N] @ [N ..< Suc T]"
    using assms by simp
  have a: "map (\<lambda>j. min (int j) (int N)) [1 ..< N] = map int [1 ..< N]"
    by (rule map_cong) auto
  have "map (\<lambda>j. min (int j) (int N)) [N ..< Suc T] = map (\<lambda>j. int N) [N ..< Suc T]"
    by (rule map_cong) auto
  also have "\<dots> = replicate (T - N + 1) (int N)"
    using assms by (simp add: map_replicate_const Suc_diff_le del: upt_Suc)
  finally have b: "map (\<lambda>j. min (int j) (int N)) [N ..< Suc T] = replicate (T - N + 1) (int N)" .
  show ?thesis by (simp only: split map_append a b)
qed

lemma episode_sizes_closed:
  assumes "1 \<le> N" "N \<le> T"
    and "\<forall>a. table_net_config a = cfg \<longrightarrow> snd (write_transition a (formed a) tps) = None"
  shows "episode_sizes formed tps (int N) d cfg T =
           Inr (map int [1 ..< N] @ replicate (T - N + 1) (int N) @ rev (map int [1 ..< N]))"
proof -
  let ?a = "after_steps (int N) d cfg T"
  let ?b = "?a\<lparr>first_idx := first_idx ?a + 1\<rparr>"
  have n: "0 \<le> int N" by simp
  obtain res1 where adds: "adds formed tps T (after_steps (int N) d cfg 0) = Inr (?a, res1)"
    and s1: "map fst res1 = map int [1 ..< N] @ replicate (T - N + 1) (int N)"
    using adds_after_steps [OF n assms(3), of T d 0] full_prefix_sizes [OF assms(1,2)] by auto
  have cfg: "\<forall>b. table_net_config b = table_net_config ?b \<longrightarrow>
      snd (write_transition b (formed b) tps) = None"
    using assms(3) by (simp add: after_steps_def)
  have len: "nat (last_idx ?b - first_idx ?b) = N - 1"
    using assms(1,2) by (simp add: after_steps_def)
  obtain a' res2 where last: "write_last_loop formed tps ?b = Inr (a', res2)"
    and s2: "map fst res2 = rev (map int [1 ..< N])"
    using write_last_loop_sizes [OF cfg] assms(1) unfolding len by auto
  have "episode formed tps T (after_steps (int N) d cfg 0) = Inr (a', res1 @ res2)"
    using adds last by (simp add: episode_def write_last_def)
  then show ?thesis
    using s1 s2 by (simp add: episode_sizes_def init_after_steps)
qed

lemma example_routes:
  "\<forall>a. table_net_config a = Some [(''trainer_0'', [''network_b'', ''network_a''])] \<longrightarrow>
     snd (write_transition a example_transition [(''trainer_0'', 1)]) = None"
  by (simp add: write_transition_def example_transition_def route_table_def getitem_def
      falsy_def config_getitem_def setitem_def empty_transition_def Let_def)

text \<open>
  C2, as the code has it. Take an adder constructed with \<open>n_step = N\<close>, any discount and any
  table configuration, and an episode of \<open>T\<close> calls of \<open>add\<close> followed by \<open>_write_last\<close>,
  \<open>1 <= N <= T\<close>, in which no \<open>_write\<close> raises. The episode completes and writes windows
  of sizes \<open>1, ..., N-1\<close>, then \<open>T-N+1\<close> windows of size \<open>N\<close>, then the tail
  \<open>N-1, ..., 1\<close>: \<open>T + N - 1\<close> transitions in all, not \<open>T\<close>.
\<close>

theorem episode_sizes_shape:
  assumes "1 \<le> N" "N \<le> T"
    and "\<forall>a. table_net_config a = cfg \<longrightarrow> snd (write_transition a (formed a) tps) = None"
  shows "episode_sizes formed tps (int N) d cfg T =
           Inr (map int [1 ..< N] @ replicate (T - N + 1) (int N) @ rev (map int [1 ..< N]))
         \<and> map_sum id length (episode_sizes formed tps (int N) d cfg T) = Inr (T + N - 1)"
  using assms(1,2) episode_sizes_closed [OF assms] by simp

text \<open>
  With \<open>n_step = 2\<close>, a table configuration that routes every transition, and an episode
  of two steps, the adder writes three transitions (sizes 1, 2, 1), not two.
\<close>

theorem episode_count_counterexample:
  "map_sum id length
     (episode_sizes (\<lambda>a. example_transition) [(''trainer_0'', 1)] 2 (99 / 100)
        (Some [(''trainer_0'', [''network_b'', ''network_a''])]) 2) \<noteq> Inr 2"
  using episode_sizes_closed [OF _ _ example_routes, of 2 2 "99 / 100"] by simp

theorem episode_sizes_shape_witness:
  "episode_sizes (\<lambda>a. example_transition) [(''trainer_0'', 1)] 3 (99 / 100)
     (Some [(''trainer_0'', [''network_b'', ''network_a''])]) 5
   = Inr [1, 2, 3, 3, 3, 2, 1]"
  using episode_sizes_shape [OF _ _ example_routes, of 3 5 "99 / 100"]
  by (simp add: upt_conv_Cons numeral_eq_Suc)

subsection \<open>The learner publishes its parameters\<close>

lemma publish_closed:
  "publish p i sources =
     (replicate (length sources) p, map (\<lambda>j. SourceUpdate j p) [i ..< i + length sources])"
proof (induction sources arbitrary: i)
  case Nil
  then show ?case by simp
next
  case (Cons s sources)
  have eq: "[i ..< i + length (s # sources)] = i # [Suc i ..< Suc i + length sources]"
    using upt_conv_Cons [of i "i + Suc (length sources)"] by simp
  show ?case
    by (subst eq) (simp add: Cons.IH params_source_update_def Let_def del: upt_Suc)
qed

lemma published_append:
  "published n tr \<Longrightarrow> published n tr' \<Longrightarrow> published n (tr @ tr')"
proof (induction n tr rule: published.induct)
  case (1 n)
  then show ?case by simp
next
  case (2 n p tr)
  then have "length (take n tr) = n" by simp
  then have "n \<le> length tr" by simp
  with 2 show ?case by simp
qed simp_all

lemma published_updates: "published n (map (\<lambda>j. SourceUpdate j p) xs)"
  by (induction xs) simp_all

lemma published_iteration:
  "published n ([PipelineGet b, Learn p] @ map (\<lambda>j. SourceUpdate j p) [0 ..< n])"
  by (simp add: published_updates)

lemma filter_is_learn_updates: "filter is_learn (map (\<lambda>j. SourceUpdate j p) xs) = []"
  by (induction xs) simp_all

lemma update_iteration_ok:
  assumes "pipeline w \<noteq> []" "published (length (params_sources w)) (events w)"
  shows "\<exists>w' ms'. update_iteration learn params_of w ms = Some (w', ms')
      \<and> published (length (params_sources w)) (events w')
      \<and> length (filter is_learn (events w')) = Suc (length (filter is_learn (events w)))
      \<and> pipeline w' = tl (pipeline w)
      \<and> params_sources w' = replicate (length (params_sources w)) (params_of (learner_state w'))"
proof -
  obtain b rest where q: "pipeline w = b # rest" using assms(1) by (cases "pipeline w") auto
  let ?p = "params_of (fst (learn (learner_state w) b))"
  have "published (length (params_sources w))
      (events w @ [PipelineGet b, Learn ?p] @ map (\<lambda>j. SourceUpdate j ?p) [0 ..< length (params_sources w)])"
    by (rule published_append [OF assms(2) published_iteration])
  then show ?thesis
    using q by (simp add: update_iteration_def pipeline_get_def publish_closed Let_def
        filter_is_learn_updates)
qed

lemma updates_ok:
  assumes "n \<le> length (pipeline w)" "published (length (params_sources w)) (events w)"
  shows "\<exists>w' ms'. updates learn params_of n w ms = Some (w', ms')
      \<and> published (length (params_sources w)) (events w')
      \<and> length (params_sources w') = length (params_sources w)
      \<and> length (filter is_learn (events w')) = length (filter is_learn (events w)) + n
      \<and> pipeline w' = drop n (pipeline w)
      \<and> (0 < n \<longrightarrow> params_sources w' =
            replicate (length (params_sources w)) (params_of (learner_state w')))
      \<and> (n = 0 \<longrightarrow> w' = w)"
  using assms
proof (induction n arbitrary: w ms)
  case 0
  then show ?case by simp
next
  case (Suc n)
  then have ne: "pipeline w \<noteq> []" by auto
  from update_iteration_ok [OF ne Suc.prems(2), of learn params_of ms]
  obtain w1 ms1 where it: "update_iteration learn params_of w ms = Some (w1, ms1)"
    and p1: "published (length (params_sources w)) (events w1)"
    and c1: "length (filter is_learn (events w1)) = Suc (length (filter is_learn (events w)))"
    and q1: "pipeline w1 = tl (pipeline w)"
    and s1: "params_sources w1 = replicate (length (params_sources w)) (params_of (learner_state w1))"
    by blast
  have len1: "length (params_sources w1) = length (params_sources w)"
    using s1 by (metis length_replicate)
  have "n \<le> length (pipeline w1)" using q1 Suc.prems(1) by simp
  moreover have "published (length (params_sources w1)) (events w1)" using p1 len1 by simp
  ultimately obtain w2 ms2 where r: "updates learn params_of n w1 ms1 = Some (w2, ms2)"
    and p2: "published (length (params_sources w1)) (events w2)"
    and l2: "length (params_sources w2) = length (params_sources w1)"
    and c2: "length (filter is_learn (events w2)) = length (filter is_learn (events w1)) + n"
    and q2: "pipeline w2 = drop n (pipeline w1)"
    and s2: "0 < n \<longrightarrow> params_sources w2 =
            replicate (length (params_sources w1)) (params_of (learner_state w2))"
    and z2: "n = 0 \<longrightarrow> w2 = w1"
    using Suc.IH [of w1 ms1] by blast
  have "params_sources w2 = replicate (length (params_sources w)) (params_of (learner_state w2))"
    using s1 s2 z2 len1 by (cases "n = 0") auto
  then show ?case
    using it r p2 l2 c2 q2 len1 c1 q1 by (simp add: drop_Suc)
qed

lemma eval_step_ok:
  assumes "n \<le> length (pipeline w)" "published (length (params_sources w)) (events w)"
  shows "\<exists>w'. eval_step learn params_of n w = Some w'
      \<and> published (length (params_sources w)) (events w')
      \<and> length (params_sources w') = length (params_sources w)
      \<and> length (filter is_learn (events w')) = length (filter is_learn (events w)) + n
      \<and> pipeline w' = drop n (pipeline w)
      \<and> (0 < n \<longrightarrow> params_sources w' =
            replicate (length (params_sources w)) (params_of (learner_state w')))
      \<and> (n = 0 \<longrightarrow> params_sources w' = params_sources w)"
proof -
  from updates_ok [OF assms, of learn params_of "[]"]
  obtain w1 ms1 where r: "updates learn params_of n w [] = Some (w1, ms1)"
    and p: "published (length (params_sources w)) (events w1)"
    and rest: "length (params_sources w1) = length (params_sources w)"
      "length (filter is_learn (events w1)) = length (filter is_learn (events w)) + n"
      "pipeline w1 = drop n (pipeline w)"
      "0 < n \<longrightarrow> params_sources w1 =
            replicate (length (params_sources w)) (params_of (learner_state w1))"
      "n = 0 \<longrightarrow> w1 = w"
    by blast
  have "published (length (params_sources w)) (events w1 @ [QueuePut])"
    using p by (intro published_append) simp_all
  then show ?thesis
    using r rest by (auto simp: eval_step_def)
qed

lemma eval_steps_ok:
  assumes "e * n \<le> length (pipeline w)" "published (length (params_sources w)) (events w)"
  shows "\<exists>w'. eval_steps learn params_of e n w = Some w'
      \<and> published (length (params_sources w)) (events w')
      \<and> length (params_sources w') = length (params_sources w)
      \<and> length (filter is_learn (events w')) = length (filter is_learn (events w)) + e * n
      \<and> pipeline w' = drop (e * n) (pipeline w)
      \<and> (0 < e * n \<longrightarrow> params_sources w' =
            replicate (length (params_sources w)) (params_of (learner_state w')))"
  using assms
proof (induction e arbitrary: w)
  case 0
  then show ?case by simp
next
  case (Suc e)
  have n: "n \<le> length (pipeline w)" using Suc.prems(1) by simp
  from eval_step_ok [OF n Suc.prems(2), of learn params_of]
  obtain w1 where r1: "eval_step learn params_of n w = Some w1"
    and p1: "published (length (params_sources w)) (events w1)"
    and l1: "length (params_sources w1) = length (params_sources w)"
    and c1: "length (filter is_learn (events w1)) = length (filter is_learn (events w)) + n"
    and q1: "pipeline w1 = drop n (pipeline w)"
    and s1: "0 < n \<longrightarrow> params_sources w1 =
            replicate (length (params_sources w)) (params_of (learner_state w1))"
    by blast
  have h1: "e * n \<le> length (pipeline w1)" using q1 Suc.prems(1) by simp
  have h2: "published (length (params_sources w1)) (events w1)" using p1 l1 by simp
  obtain w2 where all: "eval_steps learn params_of e n w1 = Some w2
      \<and> published (length (params_sources w1)) (events w2)
      \<and> length (params_sources w2) = length (params_sources w1)
      \<and> length (filter is_learn (events w2)) = length (filter is_learn (events w1)) + e * n
      \<and> pipeline w2 = drop (e * n) (pipeline w1)
      \<and> (0 < e * n \<longrightarrow> params_sources w2 =
            replicate (length (params_sources w1)) (params_of (learner_state w2)))"
    using Suc.IH [OF h1 h2] ..
  have r2: "eval_steps learn params_of e n w1 = Some w2"
    using all by (elim conjE)
  have p2: "published (length (params_sources w1)) (events w2)"
    using all by (elim conjE)
  have l2: "length (params_sources w2) = length (params_sources w1)"
    using all by (elim conjE)
  have c2: "length (filter is_learn (events w2)) = length (filter is_learn (events w1)) + e * n"
    using all by (elim conjE)
  have q2: "pipeline w2 = drop (e * n) (pipeline w1)"
    using all by (elim conjE)
  have s2: "0 < e * n \<longrightarrow> params_sources w2 =
            replicate (length (params_sources w1)) (params_of (learner_state w2))"
    using all by (elim conjE)
  have z: "e = 0 \<Longrightarrow> w2 = w1"
    using r2 by simp
  have src: "0 < Suc e * n \<longrightarrow> params_sources w2 =
      replicate (length (params_sources w)) (params_of (learner_state w2))"
  proof
    assume "0 < Suc e * n"
    then have n0: "0 < n" by auto
    show "params_sources w2 = replicate (length (params_sources w)) (params_of (learner_state w2))"
    proof (cases "e = 0")
      case True
      then show ?thesis using z s1 n0 by simp
    next
      case False
      then have "0 < e * n" using n0 by simp
      then show ?thesis using s2 l1 by simp
    qed
  qed
  show ?case
  proof (intro exI conjI)
    show "eval_steps learn params_of (Suc e) n w = Some w2"
      using r1 r2 by simp
    show "published (length (params_sources w)) (events w2)"
      using p2 l1 by simp
    show "length (params_sources w2) = length (params_sources w)"
      using l1 l2 by simp
    show "length (filter is_learn (events w2)) = length (filter is_learn (events w)) + Suc e * n"
      using c1 c2 by simp
    have "drop (e * n) (drop n (pipeline w)) = drop (e * n + n) (pipeline w)"
      by (rule drop_drop)
    then show "pipeline w2 = drop (Suc e * n) (pipeline w)"
      using q1 q2 by (simp add: add.commute)
    show "0 < Suc e * n \<longrightarrow> params_sources w2 =
        replicate (length (params_sources w)) (params_of (learner_state w2))"
      by (rule src)
  qed
qed

text \<open>
  C8. Let the pipeline deliver at least \<open>num_evaluation * num_updates_per_eval\<close> entries.
  Then \<open>learner\<close> returns, it has run exactly that many gradient updates, and in its
  event list every gradient update is followed at once, before the next \<open>pipeline.get\<close>,
  by an \<open>update\<close> of each source in \<open>params_sources\<close> with the unreplicated parameters of
  the new learner state; at the end every source holds the latest parameters.
\<close>

theorem learner_publishes_after_every_update:
  assumes "nat num_evaluation * nat num_updates_per_eval \<le> length (pipeline w)"
    and "events w = []"
  shows "\<exists>w'. learner learn params_of num_evaluation num_updates_per_eval w = Some w'
      \<and> published (length (params_sources w)) (events w')
      \<and> length (filter is_learn (events w')) = nat num_evaluation * nat num_updates_per_eval
      \<and> pipeline w' = drop (nat num_evaluation * nat num_updates_per_eval) (pipeline w)
      \<and> (0 < nat num_evaluation * nat num_updates_per_eval \<longrightarrow>
            params_sources w' =
              replicate (length (params_sources w)) (params_of (learner_state w')))"
proof -
  have "published (length (params_sources w)) (events w)"
    using assms(2) by simp
  from eval_steps_ok [OF assms(1) this, of learn params_of]
  show ?thesis
    using assms(2) unfolding learner_def by auto
qed

theorem learner_publishes_after_every_update_witness:
  "learner (\<lambda>s b. (s + b, s)) (\<lambda>s. s * 10) 1 2
     \<lparr>learner_state = 0 :: nat, pipeline = [1, 2, 3 :: nat], params_sources = [7, 7 :: nat],
      learner_queue = ([] :: (nat list \<times> nat) list), events = []\<rparr>
   = Some \<lparr>learner_state = 3, pipeline = [3], params_sources = [30, 30],
            learner_queue = [([0, 1], 3)],
            events = [PipelineGet 1, Learn 10, SourceUpdate 0 10, SourceUpdate 1 10,
                      PipelineGet 2, Learn 30, SourceUpdate 0 30, SourceUpdate 1 30, QueuePut]\<rparr>"
  using learner_publishes_after_every_update
    [of 1 2 "\<lparr>learner_state = 0 :: nat, pipeline = [1, 2, 3 :: nat], params_sources = [7, 7 :: nat],
      learner_queue = ([] :: (nat list \<times> nat) list), events = []\<rparr>"
      "\<lambda>s b. (s + b, s)" "\<lambda>s. s * 10"]
  by (simp add: learner_def eval_step_def update_iteration_def pipeline_get_def
      params_source_update_def Let_def numeral_2_eq_2)

end
